theory Spec2Isabelle
  imports Main "HOL-Library.Word"
begin

section \<open>Platform and memory model\<close>

text \<open>
  The embedding fixes the LP64 data model of the usual 64-bit hosts: \<open>char\<close> has 8 bits,
  \<open>int\<close> 32 bits, \<open>long long\<close> and \<open>size_t\<close> 64 bits. Conversions between them are
  the modular ones (\<open>ucast\<close> truncates or zero-extends, \<open>scast\<close> sign-extends), and
  signed arithmetic is two's complement. Where C leaves a result to the implementation
  or undefined (a \<open>size_t\<close> above \<open>INT_MAX\<close> converted to \<open>int\<close>, \<open>INT_MIN - 1\<close>,
  \<open>NULL + 0\<close>), the model takes what the usual compilers produce: the value modulo
  \<open>2^32\<close>, the wrapped difference, \<open>NULL\<close>.

  A pointer is either \<open>NULL\<close> or a block together with a byte offset; pointer arithmetic
  moves the offset. The string literal \<open>""\<close> that \<open>MU_STRING_EMPTY\<close> points to is a
  block of its own. The heap gives the byte stored at every pointer; the bounds of the
  blocks are the caller's business, as they are for the library.
\<close>

type_synonym size_t = "64 word"
type_synonym c_int = "32 word"
type_synonym c_llong = "64 word"
type_synonym c_char = "8 word"

datatype block = Empty_literal | Buffer nat

datatype ptr = Null | Ptr block size_t

fun ptr_add :: "ptr \<Rightarrow> size_t \<Rightarrow> ptr" where
  "ptr_add Null n = Null"
| "ptr_add (Ptr b off) n = Ptr b (off + n)"

type_synonym heap = "ptr \<Rightarrow> c_char"

definition SIZE_MAX :: size_t where
  "SIZE_MAX = - 1"

definition INT_MAX :: c_int where
  "INT_MAX = 0x7FFFFFFF"

section \<open>Views and sentinels (mu\_string.h)\<close>

record mu_string_t =
  buf :: ptr
  len :: size_t

record mu_string_mut_t =
  mut_buf :: ptr
  mut_len :: size_t

definition MU_STRING_EMPTY :: mu_string_t where
  "MU_STRING_EMPTY = \<lparr>buf = Ptr Empty_literal 0, len = 0\<rparr>"

definition MU_STRING_MUT_EMPTY :: mu_string_mut_t where
  "MU_STRING_MUT_EMPTY = \<lparr>mut_buf = Null, mut_len = 0\<rparr>"

definition MU_STRING_NOT_FOUND :: mu_string_t where
  "MU_STRING_NOT_FOUND = \<lparr>buf = Null, len = 0\<rparr>"

definition MU_STRING_INVALID :: mu_string_t where
  "MU_STRING_INVALID = \<lparr>buf = Null, len = SIZE_MAX\<rparr>"

definition MU_STRING_END :: c_int where
  "MU_STRING_END = INT_MAX"

text \<open>A predicate callback is a function pointer that may be \<open>NULL\<close>; its second
  argument is the caller's opaque \<open>void *\<close>.\<close>

type_synonym 'a mu_string_pred_t = "(c_char \<Rightarrow> 'a \<Rightarrow> bool) option"

section \<open>Construction and accessors (mu\_string.c)\<close>

definition mu_string_is_valid :: "mu_string_t \<Rightarrow> bool" where
  "mu_string_is_valid s \<longleftrightarrow> buf s \<noteq> Null \<or> len s = 0"

text \<open>\<open>strlen\<close> walks the bytes until the first zero byte; on a heap without one it
  never returns, which is the value \<open>None\<close>.\<close>

partial_function (option) strlen_from :: "heap \<Rightarrow> ptr \<Rightarrow> size_t \<Rightarrow> size_t option" where
  "strlen_from h p n = (if h (ptr_add p n) = 0 then Some n else strlen_from h p (n + 1))"

definition strlen :: "heap \<Rightarrow> ptr \<Rightarrow> size_t option" where
  "strlen h p = strlen_from h p 0"

definition mu_string_from_cstr :: "heap \<Rightarrow> ptr \<Rightarrow> mu_string_t option" where
  "mu_string_from_cstr h cstr =
     (if cstr = Null then Some MU_STRING_EMPTY
      else map_option (\<lambda>n. \<lparr>buf = cstr, len = n\<rparr>) (strlen h cstr))"

definition mu_string_from_buf :: "ptr \<Rightarrow> size_t \<Rightarrow> mu_string_t" where
  "mu_string_from_buf b n =
     (if b = Null \<and> n > 0 then MU_STRING_INVALID
      else if b = Null \<and> n = 0 then MU_STRING_EMPTY
      else \<lparr>buf = b, len = n\<rparr>)"

definition mu_string_mut_from_buf :: "ptr \<Rightarrow> size_t \<Rightarrow> mu_string_mut_t" where
  "mu_string_mut_from_buf b n = \<lparr>mut_buf = b, mut_len = n\<rparr>"

definition mu_string_len :: "mu_string_t \<Rightarrow> size_t" where
  "mu_string_len s = (if \<not> mu_string_is_valid s then SIZE_MAX else len s)"

definition mu_string_is_empty :: "mu_string_t \<Rightarrow> bool" where
  "mu_string_is_empty s = (if \<not> mu_string_is_valid s then False else len s = 0)"


section \<open>Loops and library calls\<close>

text \<open>
  The forward loops of the library all have one shape: an index of type \<open>size_t\<close> runs
  from \<open>i\<close> up to \<open>n\<close> and stops at the first byte that passes a test. It is the
  \<open>for (size_t i = 0; i < s.len; ++i)\<close> loop with a \<open>break\<close> or \<open>return\<close> in its body
  (test: the byte is the one looked for) and the
  \<open>while (start_idx < s.len && pred(s.buf[start_idx], arg)) start_idx++\<close> loop (test: the
  predicate fails). The result is the index where the loop stopped, \<open>n\<close> when no byte
  passed.
\<close>

function first_index :: "(c_char \<Rightarrow> bool) \<Rightarrow> heap \<Rightarrow> ptr \<Rightarrow> size_t \<Rightarrow> size_t \<Rightarrow> size_t" where
  "first_index P h b n i =
     (if i < n then (if P (h (ptr_add b i)) then i else first_index P h b n (i + 1)) else n)"
  by pat_completeness auto
termination
proof (relation "measure (\<lambda>(P, h, b, n, i). unat (n - i))")
  show "wf (measure (\<lambda>(P, h, b, n, i). unat (n - i)))"
    by simp
next
  fix P :: "c_char \<Rightarrow> bool" and h :: heap and b :: ptr and n i :: size_t
  assume "i < n"
  then have "unat (n - (i + 1)) < unat (n - i)"
    by unat_arith
  then show "((P, h, b, n, i + 1), (P, h, b, n, i)) \<in> measure (\<lambda>(P, h, b, n, i). unat (n - i))"
    by simp
qed

text \<open>
  The backward loops count an \<open>int\<close> down to 0:
  \<open>for (int i = (int)s.len - 1; i >= 0; --i)\<close> with a \<open>return\<close> in its body, and
  \<open>while (end_idx >= 0 && pred(s.buf[end_idx], arg)) end_idx--\<close>. The result is the index
  where the loop stopped, which is negative when no byte passed the test.
\<close>

function last_index :: "(c_char \<Rightarrow> bool) \<Rightarrow> heap \<Rightarrow> ptr \<Rightarrow> c_int \<Rightarrow> c_int" where
  "last_index P h b i =
     (if 0 \<le> sint i then (if P (h (ptr_add b (scast i))) then i else last_index P h b (i - 1))
      else i)"
  by pat_completeness auto
termination
proof (relation "measure (\<lambda>(P, h, b, i). nat (sint i + 1))")
  show "wf (measure (\<lambda>(P, h, b, i). nat (sint i + 1)))"
    by simp
next
  fix P :: "c_char \<Rightarrow> bool" and h :: heap and b :: ptr and i :: c_int
  assume nonneg: "0 \<le> sint i"
  have "sint (i - 1) = sint i - 1"
    using nonneg sint_lt [of i]
    by (simp add: sint_word_ariths signed_take_bit_int_eq_self)
  with nonneg show "((P, h, b, i - 1), (P, h, b, i)) \<in> measure (\<lambda>(P, h, b, i). nat (sint i + 1))"
    by simp
qed

text \<open>
  The backward loop of \<open>mu_string_trim\<close>,
  \<open>while (end_idx >= (int)start_idx && pred(s.buf[end_idx], arg)) end_idx--\<close>, has a lower
  bound that need not be 0. With the bound at \<open>INT_MIN\<close> the comparison never fails and
  the decrement wraps around, so the loop need not end: not returning is \<open>None\<close>.
\<close>

partial_function (option) trim_end_loop ::
    "(c_char \<Rightarrow> bool) \<Rightarrow> heap \<Rightarrow> ptr \<Rightarrow> c_int \<Rightarrow> c_int \<Rightarrow> c_int option" where
  "trim_end_loop P h b lo e =
     (if sint lo \<le> sint e \<and> P (h (ptr_add b (scast e))) then trim_end_loop P h b lo (e - 1)
      else Some e)"

text \<open>
  \<open>memcmp\<close> compares \<open>n\<close> bytes as unsigned values and returns 0 when they agree; the
  sign of the result is that of the first difference (C fixes the sign only, the model
  returns \<open>-1\<close> or \<open>1\<close>).
\<close>

function memcmp_from :: "heap \<Rightarrow> ptr \<Rightarrow> ptr \<Rightarrow> size_t \<Rightarrow> size_t \<Rightarrow> c_int" where
  "memcmp_from h p q n i =
     (if i < n then
        (if h (ptr_add p i) \<noteq> h (ptr_add q i)
         then (if h (ptr_add p i) < h (ptr_add q i) then - 1 else 1)
         else memcmp_from h p q n (i + 1))
      else 0)"
  by pat_completeness auto
termination
proof (relation "measure (\<lambda>(h, p, q, n, i). unat (n - i))")
  show "wf (measure (\<lambda>(h, p, q, n, i). unat (n - i)))"
    by simp
next
  fix h :: heap and p q :: ptr and n i :: size_t
  assume "i < n"
  then have "unat (n - (i + 1)) < unat (n - i)"
    by unat_arith
  then show "((h, p, q, n, i + 1), (h, p, q, n, i)) \<in> measure (\<lambda>(h, p, q, n, i). unat (n - i))"
    by simp
qed

definition memcmp :: "heap \<Rightarrow> ptr \<Rightarrow> ptr \<Rightarrow> size_t \<Rightarrow> c_int" where
  "memcmp h p q n = memcmp_from h p q n 0"

text \<open>
  \<open>memcpy\<close> stores at \<open>d + k\<close>, for every \<open>k < n\<close>, the byte that was at \<open>s + k\<close> before
  the call, and leaves every other byte alone. C leaves the call undefined when the two
  regions overlap; there the model copies from the heap as it was before the call.
\<close>

fun offset_in :: "ptr \<Rightarrow> size_t \<Rightarrow> ptr \<Rightarrow> size_t option" where
  "offset_in (Ptr b off) n (Ptr b' off') =
     (if b' = b \<and> off' - off < n then Some (off' - off) else None)"
| "offset_in Null n a = None"
| "offset_in (Ptr b off) n Null = None"

definition memcpy :: "heap \<Rightarrow> ptr \<Rightarrow> ptr \<Rightarrow> size_t \<Rightarrow> heap" where
  "memcpy h d s n = (\<lambda>a. case offset_in d n a of Some k \<Rightarrow> h (ptr_add s k) | None \<Rightarrow> h a)"

section \<open>Comparison\<close>

definition mu_string_eq :: "heap \<Rightarrow> mu_string_t \<Rightarrow> mu_string_t \<Rightarrow> bool" where
  "mu_string_eq h s1 s2 =
     (let s1_is_valid = mu_string_is_valid s1; s2_is_valid = mu_string_is_valid s2 in
      if \<not> s1_is_valid \<or> \<not> s2_is_valid then (\<not> s1_is_valid) = (\<not> s2_is_valid)
      else if len s1 \<noteq> len s2 then False
      else if len s1 = 0 then True
      else memcmp h (buf s1) (buf s2) (len s1) = 0)"

section \<open>Searching\<close>

definition mu_string_find_char :: "heap \<Rightarrow> mu_string_t \<Rightarrow> c_char \<Rightarrow> mu_string_t" where
  "mu_string_find_char h s c =
     (if \<not> mu_string_is_valid s then MU_STRING_INVALID
      else if len s = 0 then MU_STRING_EMPTY
      else let i = first_index (\<lambda>x. x = c) h (buf s) (len s) 0 in
        if i < len s then \<lparr>buf = ptr_add (buf s) i, len = len s - i\<rparr>
        else MU_STRING_EMPTY)"

definition mu_string_rfind_char :: "heap \<Rightarrow> mu_string_t \<Rightarrow> c_char \<Rightarrow> mu_string_t" where
  "mu_string_rfind_char h s c =
     (if \<not> mu_string_is_valid s then MU_STRING_INVALID
      else if len s = 0 then MU_STRING_EMPTY
      else let i = last_index (\<lambda>x. x = c) h (buf s) (ucast (len s) - 1) in
        if 0 \<le> sint i then \<lparr>buf = ptr_add (buf s) (scast i), len = len s - scast i\<rparr>
        else MU_STRING_EMPTY)"

definition mu_string_find_pred ::
    "heap \<Rightarrow> mu_string_t \<Rightarrow> 'a mu_string_pred_t \<Rightarrow> 'a \<Rightarrow> mu_string_t" where
  "mu_string_find_pred h s pred arg =
     (if \<not> mu_string_is_valid s then MU_STRING_INVALID
      else if len s = 0 then MU_STRING_EMPTY
      else case pred of
        None \<Rightarrow> MU_STRING_EMPTY
      | Some p \<Rightarrow>
          let i = first_index (\<lambda>x. p x arg) h (buf s) (len s) 0 in
          if i < len s then \<lparr>buf = ptr_add (buf s) i, len = len s - i\<rparr>
          else MU_STRING_EMPTY)"

definition mu_string_rfind_pred ::
    "heap \<Rightarrow> mu_string_t \<Rightarrow> 'a mu_string_pred_t \<Rightarrow> 'a \<Rightarrow> mu_string_t" where
  "mu_string_rfind_pred h s pred arg =
     (if \<not> mu_string_is_valid s then MU_STRING_INVALID
      else if len s = 0 then MU_STRING_EMPTY
      else case pred of
        None \<Rightarrow> MU_STRING_EMPTY
      | Some p \<Rightarrow>
          let i = last_index (\<lambda>x. p x arg) h (buf s) (ucast (len s) - 1) in
          if 0 \<le> sint i then \<lparr>buf = ptr_add (buf s) (scast i), len = len s - scast i\<rparr>
          else MU_STRING_EMPTY)"

definition mu_string_find_first_not_pred ::
    "heap \<Rightarrow> mu_string_t \<Rightarrow> 'a mu_string_pred_t \<Rightarrow> 'a \<Rightarrow> mu_string_t" where
  "mu_string_find_first_not_pred h s pred arg =
     (if \<not> mu_string_is_valid s then MU_STRING_INVALID
      else if len s = 0 then MU_STRING_EMPTY
      else case pred of
        None \<Rightarrow> \<lparr>buf = buf s, len = len s\<rparr>
      | Some p \<Rightarrow>
          let start_idx = first_index (\<lambda>x. \<not> p x arg) h (buf s) (len s) 0 in
          if start_idx = len s then MU_STRING_EMPTY
          else \<lparr>buf = ptr_add (buf s) start_idx, len = len s - start_idx\<rparr>)"

text \<open>
  The loop of \<open>mu_string_find_str\<close>,
  \<open>for (size_t i = 0; i <= haystack.len - needle.len; ++i)\<close>, has an inclusive bound:
  with the bound at \<open>SIZE_MAX\<close> the index would wrap around and the loop would not end.
  The result of the loop is the view that the function returns.
\<close>

partial_function (option) find_str_loop ::
    "heap \<Rightarrow> mu_string_t \<Rightarrow> mu_string_t \<Rightarrow> size_t \<Rightarrow> mu_string_t option" where
  "find_str_loop h haystack needle i =
     (if i \<le> len haystack - len needle then
        (if memcmp h (ptr_add (buf haystack) i) (buf needle) (len needle) = 0
         then Some \<lparr>buf = ptr_add (buf haystack) i, len = len haystack - i\<rparr>
         else find_str_loop h haystack needle (i + 1))
      else Some MU_STRING_EMPTY)"

definition mu_string_find_str :: "heap \<Rightarrow> mu_string_t \<Rightarrow> mu_string_t \<Rightarrow> mu_string_t option" where
  "mu_string_find_str h haystack needle =
     (if \<not> mu_string_is_valid haystack \<or> \<not> mu_string_is_valid needle then Some MU_STRING_INVALID
      else if len needle = 0 then Some haystack
      else if len needle > len haystack then Some MU_STRING_EMPTY
      else find_str_loop h haystack needle 0)"

section \<open>Slicing and trimming\<close>

text \<open>
  \<open>mu_string_slice\<close> treats \<open>start\<close> and \<open>end\<close> with the same statements: widen the
  \<open>int\<close> to \<open>long long\<close>; if it is negative add \<open>(long long)s.len\<close> and raise a result
  that is still negative to 0; convert to \<open>size_t\<close>; lower a value above \<open>s.len\<close> to
  \<open>s.len\<close>. Both conversions between \<open>size_t\<close> and \<open>long long\<close> keep the 64 bits.
\<close>

definition clamp_index :: "size_t \<Rightarrow> c_int \<Rightarrow> size_t" where
  "clamp_index n idx =
     (let widened = (scast idx :: c_llong);
          clamped_ll =
            (if sint widened < 0 then
               (let moved = n + widened in if sint moved < 0 then 0 else moved)
             else widened);
          clamped = (clamped_ll :: size_t)
      in if clamped > n then n else clamped)"

definition mu_string_slice :: "mu_string_t \<Rightarrow> c_int \<Rightarrow> c_int \<Rightarrow> mu_string_t" where
  "mu_string_slice s start end =
     (if \<not> mu_string_is_valid s then MU_STRING_INVALID
      else if len s = 0 then MU_STRING_EMPTY
      else let clamped_start = clamp_index (len s) start;
               clamped_end = clamp_index (len s) end in
        if clamped_start \<ge> clamped_end then MU_STRING_EMPTY
        else \<lparr>buf = ptr_add (buf s) clamped_start, len = clamped_end - clamped_start\<rparr>)"

definition mu_string_ltrim ::
    "heap \<Rightarrow> mu_string_t \<Rightarrow> 'a mu_string_pred_t \<Rightarrow> 'a \<Rightarrow> mu_string_t" where
  "mu_string_ltrim h s pred arg =
     (if \<not> mu_string_is_valid s then MU_STRING_INVALID
      else if len s = 0 then s
      else case pred of
        None \<Rightarrow> s
      | Some p \<Rightarrow>
          let start_idx = first_index (\<lambda>x. \<not> p x arg) h (buf s) (len s) 0 in
          if start_idx = len s then MU_STRING_EMPTY
          else \<lparr>buf = ptr_add (buf s) start_idx, len = len s - start_idx\<rparr>)"

definition mu_string_rtrim ::
    "heap \<Rightarrow> mu_string_t \<Rightarrow> 'a mu_string_pred_t \<Rightarrow> 'a \<Rightarrow> mu_string_t" where
  "mu_string_rtrim h s pred arg =
     (if \<not> mu_string_is_valid s then MU_STRING_INVALID
      else if len s = 0 then s
      else case pred of
        None \<Rightarrow> s
      | Some p \<Rightarrow>
          let end_idx = last_index (\<lambda>x. \<not> p x arg) h (buf s) (ucast (len s) - 1) in
          if sint end_idx < 0 then MU_STRING_EMPTY
          else \<lparr>buf = buf s, len = scast end_idx + 1\<rparr>)"

definition mu_string_trim ::
    "heap \<Rightarrow> mu_string_t \<Rightarrow> 'a mu_string_pred_t \<Rightarrow> 'a \<Rightarrow> mu_string_t option" where
  "mu_string_trim h s pred arg =
     (if \<not> mu_string_is_valid s then Some MU_STRING_INVALID
      else if len s = 0 then Some s
      else case pred of
        None \<Rightarrow> Some s
      | Some p \<Rightarrow>
          let start_idx = first_index (\<lambda>x. \<not> p x arg) h (buf s) (len s) 0 in
          if start_idx = len s then Some MU_STRING_EMPTY
          else
            case trim_end_loop (\<lambda>x. p x arg) h (buf s) (ucast start_idx) (ucast (len s) - 1) of
              None \<Rightarrow> None
            | Some end_idx \<Rightarrow>
                Some \<lparr>buf = ptr_add (buf s) start_idx, len = scast end_idx - start_idx + 1\<rparr>)"

section \<open>Splitting\<close>

text \<open>
  The out-parameter \<open>mu_string_t *after\<close> is \<open>None\<close> for a null pointer and otherwise
  holds the view it points to; every function returns its result together with the
  out-parameter after the call.
\<close>

definition mu_string_split_handle_result ::
    "mu_string_t \<Rightarrow> mu_string_t option \<Rightarrow> size_t \<Rightarrow> mu_string_t \<times> mu_string_t option" where
  "mu_string_split_handle_result s after found_idx =
     (if found_idx < len s then
        (\<lparr>buf = buf s, len = found_idx\<rparr>,
         map_option (\<lambda>a. a\<lparr>buf := ptr_add (buf s) found_idx, len := len s - found_idx\<rparr>) after)
      else
        (s, map_option (\<lambda>a. a\<lparr>buf := ptr_add (buf s) (len s), len := 0\<rparr>) after))"

definition mu_string_split_at_char ::
    "heap \<Rightarrow> mu_string_t \<Rightarrow> mu_string_t option \<Rightarrow> c_char \<Rightarrow> mu_string_t \<times> mu_string_t option" where
  "mu_string_split_at_char h s after delimiter =
     (if \<not> mu_string_is_valid s then
        (MU_STRING_INVALID, map_option (\<lambda>a. MU_STRING_INVALID) after)
      else let found_idx = first_index (\<lambda>x. x = delimiter) h (buf s) (len s) 0 in
        if found_idx \<noteq> len s then
          (\<lparr>buf = ptr_add (buf s) 0, len = found_idx\<rparr>,
           map_option (\<lambda>a. \<lparr>buf = ptr_add (buf s) found_idx, len = len s - found_idx\<rparr>) after)
        else
          (s, map_option (\<lambda>a. MU_STRING_NOT_FOUND) after))"

definition mu_string_split_by_pred ::
    "heap \<Rightarrow> mu_string_t \<Rightarrow> mu_string_t option \<Rightarrow> 'a mu_string_pred_t \<Rightarrow> 'a
      \<Rightarrow> mu_string_t \<times> mu_string_t option" where
  "mu_string_split_by_pred h s after pred arg =
     (case pred of
        None \<Rightarrow> (MU_STRING_INVALID, map_option (\<lambda>a. MU_STRING_INVALID) after)
      | Some p \<Rightarrow>
          if \<not> mu_string_is_valid s then
            (MU_STRING_INVALID, map_option (\<lambda>a. MU_STRING_INVALID) after)
          else let split_idx = first_index (\<lambda>x. p x arg) h (buf s) (len s) 0 in
            if split_idx = len s then
              (s, map_option (\<lambda>a. a\<lparr>buf := ptr_add (buf s) (len s), len := 0\<rparr>) after)
            else mu_string_split_handle_result s after split_idx)"

definition mu_string_split_by_not_pred ::
    "heap \<Rightarrow> mu_string_t \<Rightarrow> mu_string_t option \<Rightarrow> 'a mu_string_pred_t \<Rightarrow> 'a
      \<Rightarrow> mu_string_t \<times> mu_string_t option" where
  "mu_string_split_by_not_pred h s after pred arg =
     (case pred of
        None \<Rightarrow> (MU_STRING_INVALID, map_option (\<lambda>a. MU_STRING_INVALID) after)
      | Some p \<Rightarrow>
          if \<not> mu_string_is_valid s then
            (MU_STRING_INVALID, map_option (\<lambda>a. MU_STRING_INVALID) after)
          else let found_idx = first_index (\<lambda>x. \<not> p x arg) h (buf s) (len s) 0 in
            mu_string_split_handle_result s after found_idx)"

section \<open>Writing into a segment\<close>

text \<open>The two functions write through \<open>dst.buf\<close>; they return the heap after the call
  together with their result.\<close>

definition mu_string_copy :: "heap \<Rightarrow> mu_string_mut_t \<Rightarrow> mu_string_t \<Rightarrow> heap \<times> mu_string_t" where
  "mu_string_copy h dst src =
     (if mut_buf dst = Null \<or> \<not> mu_string_is_valid src then (h, MU_STRING_INVALID)
      else let bytes_to_copy = (if len src < mut_len dst then len src else mut_len dst);
               h' = (if bytes_to_copy > 0 then memcpy h (mut_buf dst) (buf src) bytes_to_copy
                     else h)
        in (h', \<lparr>buf = mut_buf dst, len = bytes_to_copy\<rparr>))"

definition mu_string_append ::
    "heap \<Rightarrow> mu_string_mut_t \<Rightarrow> mu_string_t \<Rightarrow> heap \<times> mu_string_mut_t" where
  "mu_string_append h dst_segment src =
     (if mut_buf dst_segment = Null \<or> \<not> mu_string_is_valid src then (h, dst_segment)
      else if len src = 0 then (h, dst_segment)
      else let bytes_to_copy =
                 (if len src < mut_len dst_segment then len src else mut_len dst_segment);
               h' = (if bytes_to_copy > 0
                     then memcpy h (mut_buf dst_segment) (buf src) bytes_to_copy else h)
        in (h', \<lparr>mut_buf = ptr_add (mut_buf dst_segment) bytes_to_copy,
                 mut_len = mut_len dst_segment - bytes_to_copy\<rparr>))"


section \<open>Notions of the specification\<close>

text \<open>The number of bytes that a list of views holds, and the segment that remains of
  the buffer \<open>{p, c}\<close> once \<open>m\<close> bytes are written.\<close>

definition total_len :: "mu_string_t list \<Rightarrow> nat" where
  "total_len vs = sum_list (map (\<lambda>v. unat (len v)) vs)"


text \<open>The \<open>n\<close> bytes that the heap holds from \<open>p\<close> on, and the bytes of a view.\<close>

definition peek :: "heap \<Rightarrow> ptr \<Rightarrow> nat \<Rightarrow> c_char list" where
  "peek h p n = map (\<lambda>k. h (ptr_add p (of_nat k))) [0..<n]"

definition view_bytes :: "heap \<Rightarrow> mu_string_t \<Rightarrow> c_char list" where
  "view_bytes h s = peek h (buf s) (unat (len s))"



text \<open>The bytes of the needle stand in the haystack from index \<open>k\<close> on.\<close>

definition occurs_at :: "heap \<Rightarrow> mu_string_t \<Rightarrow> mu_string_t \<Rightarrow> size_t \<Rightarrow> bool" where
  "occurs_at h haystack needle k \<longleftrightarrow>
     (\<forall>j. j < len needle \<longrightarrow> h (ptr_add (buf haystack) (k + j)) = h (ptr_add (buf needle) j))"

text \<open>
  The index normalization in the words of the specification, on unbounded integers: a
  negative index \<open>idx\<close> becomes \<open>L + idx\<close>, and the index is then clamped into
  \<open>[0, L]\<close>.
\<close>

definition normalized_index :: "int \<Rightarrow> int \<Rightarrow> int" where
  "normalized_index L idx = max 0 (min L (if idx < 0 then L + idx else idx))"

section \<open>Test data\<close>

text \<open>Heaps and byte strings for the concrete inputs: \<open>poke\<close> stores a list of bytes
  from a pointer on, \<open>bytes_of\<close> gives the bytes of an ASCII string.\<close>

fun poke :: "heap \<Rightarrow> ptr \<Rightarrow> c_char list \<Rightarrow> heap" where
  "poke h p [] = h"
| "poke h p (c # cs) = poke (h(p := c)) (ptr_add p 1) cs"

definition bytes_of :: "string \<Rightarrow> c_char list" where
  "bytes_of cs = map (\<lambda>c. of_nat (of_char c)) cs"

definition zero_heap :: heap where
  "zero_heap = (\<lambda>_. 0)"

text \<open>The predicates of the test suite: \<open>is_whitespace_pred\<close> and \<open>is_digit_pred\<close>
  ignore their argument.\<close>

definition is_whitespace_pred :: "c_char \<Rightarrow> unit \<Rightarrow> bool" where
  "is_whitespace_pred ch arg \<longleftrightarrow> ch = 0x20 \<or> ch = 0x09 \<or> ch = 0x0A \<or> ch = 0x0D"

definition is_digit_pred :: "c_char \<Rightarrow> unit \<Rightarrow> bool" where
  "is_digit_pred ch arg \<longleftrightarrow> 0x30 \<le> ch \<and> ch \<le> 0x39"

section \<open>Validity\<close>

text \<open>
  C2, as stated: \<open>mu_string_is_valid\<close> is false only for the Invalid sentinel. The view
  with a null buffer and length 5 is not the sentinel, and is not valid either.
\<close>

theorem is_valid_exact_sentinel_counterexample:
  "\<not> mu_string_is_valid \<lparr>buf = Null, len = 5\<rparr>
   \<and> \<lparr>buf = Null, len = 5\<rparr> \<noteq> MU_STRING_INVALID"
  by (simp add: mu_string_is_valid_def MU_STRING_INVALID_def SIZE_MAX_def)

text \<open>
  C2, amended: \<open>mu_string_is_valid v\<close> is false exactly when the buffer of \<open>v\<close> is null
  and its length is not zero. The Invalid sentinel is one such view, and every view that
  is not valid has the sentinel's null buffer.
\<close>

theorem is_valid_false_iff:
  "(\<not> mu_string_is_valid v \<longleftrightarrow> buf v = Null \<and> len v \<noteq> 0)
   \<and> \<not> mu_string_is_valid MU_STRING_INVALID"
  by (simp add: mu_string_is_valid_def MU_STRING_INVALID_def SIZE_MAX_def)

theorem is_valid_false_iff_witness:
  "\<not> mu_string_is_valid \<lparr>buf = Null, len = 5\<rparr>
   \<and> mu_string_is_valid \<lparr>buf = Null, len = 0\<rparr>
   \<and> mu_string_is_valid \<lparr>buf = Ptr (Buffer 0) 0, len = 5\<rparr>
   \<and> \<not> mu_string_is_valid MU_STRING_INVALID"
  using is_valid_false_iff [of "\<lparr>buf = Null, len = 5\<rparr>"]
    is_valid_false_iff [of "\<lparr>buf = Null, len = 0\<rparr>"]
    is_valid_false_iff [of "\<lparr>buf = Ptr (Buffer 0) 0, len = 5\<rparr>"]
  by simp

section \<open>Views of C strings\<close>

text \<open>
  C10: \<open>mu_string_from_cstr\<close> of the null pointer returns \<open>MU_STRING_EMPTY\<close>, a valid
  view of length 0 with a buffer that is not null, and not the Invalid sentinel;
  \<open>mu_string_from_buf\<close> of the null pointer with a length above 0 returns the Invalid
  sentinel.
\<close>

theorem from_cstr_null:
  "mu_string_from_cstr h Null = Some MU_STRING_EMPTY
   \<and> mu_string_is_valid MU_STRING_EMPTY
   \<and> mu_string_len MU_STRING_EMPTY = 0
   \<and> mu_string_is_empty MU_STRING_EMPTY
   \<and> buf MU_STRING_EMPTY \<noteq> Null
   \<and> MU_STRING_EMPTY \<noteq> MU_STRING_INVALID
   \<and> (0 < n \<longrightarrow> mu_string_from_buf Null n = MU_STRING_INVALID
                \<and> \<not> mu_string_is_valid (mu_string_from_buf Null n))"
  by (simp add: mu_string_from_cstr_def mu_string_from_buf_def mu_string_is_valid_def
      mu_string_len_def mu_string_is_empty_def MU_STRING_EMPTY_def MU_STRING_INVALID_def
      SIZE_MAX_def)

theorem from_cstr_null_witness:
  "mu_string_from_cstr (\<lambda>_. 0) Null = Some MU_STRING_EMPTY
   \<and> (0 :: size_t) < 3
   \<and> mu_string_from_buf Null 3 = MU_STRING_INVALID"
  using from_cstr_null [of "\<lambda>_. 0" 3]
  by simp

section \<open>The forward loop\<close>

declare first_index.simps [simp del]

lemma first_index_step:
  "i < n \<Longrightarrow> \<not> P (h (ptr_add b i)) \<Longrightarrow> first_index P h b n i = first_index P h b n (i + 1)"
  by (simp add: first_index.simps [of P h b n i])

lemma first_index_stop: "i < n \<Longrightarrow> P (h (ptr_add b i)) \<Longrightarrow> first_index P h b n i = i"
  by (simp add: first_index.simps [of P h b n i])

lemma first_index_end: "\<not> i < n \<Longrightarrow> first_index P h b n i = n"
  by (simp add: first_index.simps [of P h b n i])

lemma first_index_bounds: "i \<le> n \<Longrightarrow> i \<le> first_index P h b n i \<and> first_index P h b n i \<le> n"
proof (induction P h b n i rule: first_index.induct)
  case (1 P h b n i)
  show ?case
  proof (cases "i < n")
    case True
    note lt = this
    show ?thesis
    proof (cases "P (h (ptr_add b i))")
      case True
      with lt "1.prems" show ?thesis
        by (simp add: first_index_stop)
    next
      case False
      from lt have "i + 1 \<le> n" "i \<le> i + 1"
        by unat_arith+
      with 1 lt False show ?thesis
        by (auto simp: first_index_step)
    qed
  next
    case False
    with "1.prems" show ?thesis
      by (simp add: first_index_end)
  qed
qed

lemma first_index_hit: "first_index P h b n i < n \<Longrightarrow> P (h (ptr_add b (first_index P h b n i)))"
proof (induction P h b n i rule: first_index.induct)
  case (1 P h b n i)
  show ?case
  proof (cases "i < n")
    case True
    note lt = this
    show ?thesis
    proof (cases "P (h (ptr_add b i))")
      case True
      with lt show ?thesis
        by (simp add: first_index_stop)
    next
      case False
      with 1 lt show ?thesis
        by (simp add: first_index_step)
    qed
  next
    case False
    with "1.prems" show ?thesis
      by (simp add: first_index_end)
  qed
qed

lemma first_index_before:
  "i \<le> j \<Longrightarrow> j < first_index P h b n i \<Longrightarrow> \<not> P (h (ptr_add b j))"
proof (induction P h b n i rule: first_index.induct)
  case (1 P h b n i)
  show ?case
  proof (cases "i < n")
    case True
    note lt = this
    show ?thesis
    proof (cases "P (h (ptr_add b i))")
      case True
      with lt "1.prems" show ?thesis
        by (simp add: first_index_stop)
    next
      case False
      note nP = this
      show ?thesis
      proof (cases "j = i")
        case True
        with nP show ?thesis by simp
      next
        case False
        with "1.prems" lt have "i + 1 \<le> j"
          by unat_arith
        with 1 lt nP show ?thesis
          by (simp add: first_index_step)
      qed
    qed
  next
    case False
    with "1.prems" show ?thesis
      by (simp add: first_index_end)
  qed
qed

lemma first_index_none:
  "\<forall>j. i \<le> j \<and> j < n \<longrightarrow> \<not> P (h (ptr_add b j)) \<Longrightarrow> first_index P h b n i = n"
proof (induction P h b n i rule: first_index.induct)
  case (1 P h b n i)
  show ?case
  proof (cases "i < n")
    case True
    then have "i \<le> i + 1"
      by unat_arith
    then have "\<forall>j. i + 1 \<le> j \<and> j < n \<longrightarrow> \<not> P (h (ptr_add b j))"
      using "1.prems" by auto
    moreover from True "1.prems" have "\<not> P (h (ptr_add b i))"
      by simp
    ultimately show ?thesis
      using 1 True by (simp add: first_index_step)
  next
    case False
    then show ?thesis
      by (simp add: first_index_end)
  qed
qed

section \<open>Pointers and \<open>memcpy\<close>\<close>

lemma ptr_add_add: "ptr_add (ptr_add p a) b = ptr_add p (a + b)"
  by (cases p) (simp_all add: add.assoc)

lemma ptr_add_0: "ptr_add p 0 = p"
  by (cases p) simp_all


lemma offset_in_Some_iff:
  "offset_in d n a = Some k \<longleftrightarrow> d \<noteq> Null \<and> k < n \<and> a = ptr_add d k"
proof (cases d)
  case Null
  then show ?thesis by simp
next
  case (Ptr b off)
  then show ?thesis
    by (cases a) auto
qed

lemma offset_in_None_iff:
  "offset_in d n a = None \<longleftrightarrow> d = Null \<or> (\<forall>k. k < n \<longrightarrow> a \<noteq> ptr_add d k)"
proof -
  have "offset_in d n a = None \<longleftrightarrow> (\<forall>k. offset_in d n a \<noteq> Some k)"
    by (cases "offset_in d n a") simp_all
  then show ?thesis
    by (auto simp: offset_in_Some_iff)
qed

lemma memcpy_inside: "d \<noteq> Null \<Longrightarrow> k < n \<Longrightarrow> memcpy h d s n (ptr_add d k) = h (ptr_add s k)"
proof -
  assume "d \<noteq> Null" "k < n"
  then have "offset_in d n (ptr_add d k) = Some k"
    by (simp add: offset_in_Some_iff)
  then show ?thesis
    by (simp add: memcpy_def)
qed

lemma memcpy_outside: "\<forall>k. k < n \<longrightarrow> a \<noteq> ptr_add d k \<Longrightarrow> memcpy h d s n a = h a"
proof -
  assume "\<forall>k. k < n \<longrightarrow> a \<noteq> ptr_add d k"
  then have "offset_in d n a = None"
    by (simp add: offset_in_None_iff)
  then show ?thesis
    by (simp add: memcpy_def)
qed

section \<open>Splitting when the split point is absent\<close>

text \<open>
  C1: the header and the tests say that \<open>mu_string_split_at_char\<close> returns
  \<open>MU_STRING_NOT_FOUND\<close> when the delimiter is absent, and that
  \<open>mu_string_split_by_not_pred\<close> returns it, and writes it to \<open>*after\<close>, when every byte
  satisfies the predicate. The code does neither. On \<open>"no delimiter"\<close> and \<open>'='\<close>
  \<open>mu_string_split_at_char\<close> returns the whole subject (only \<open>*after\<close> receives the
  sentinel), and the test's \<open>mu_string_eq(MU_STRING_NOT_FOUND, return_value)\<close> is false;
  on \<open>"123456"\<close> and \<open>is_digit_pred\<close> \<open>mu_string_split_by_not_pred\<close> returns the whole
  subject and writes the empty view at its end to \<open>*after\<close>.
\<close>

theorem split_not_found_returns_subject:
  "mu_string_split_at_char
     (poke zero_heap (Ptr (Buffer 0) 0) (bytes_of ''no delimiter''))
     \<lparr>buf = Ptr (Buffer 0) 0, len = 12\<rparr> (Some MU_STRING_EMPTY) 0x3D
     = (\<lparr>buf = Ptr (Buffer 0) 0, len = 12\<rparr>, Some MU_STRING_NOT_FOUND)
   \<and> \<lparr>buf = Ptr (Buffer 0) 0, len = 12\<rparr> \<noteq> MU_STRING_NOT_FOUND
   \<and> \<not> mu_string_eq (poke zero_heap (Ptr (Buffer 0) 0) (bytes_of ''no delimiter''))
         MU_STRING_NOT_FOUND \<lparr>buf = Ptr (Buffer 0) 0, len = 12\<rparr>
   \<and> mu_string_split_by_not_pred
     (poke zero_heap (Ptr (Buffer 0) 0) (bytes_of ''123456''))
     \<lparr>buf = Ptr (Buffer 0) 0, len = 6\<rparr> (Some MU_STRING_EMPTY) (Some is_digit_pred) ()
     = (\<lparr>buf = Ptr (Buffer 0) 0, len = 6\<rparr>, Some \<lparr>buf = Ptr (Buffer 0) 6, len = 0\<rparr>)
   \<and> \<lparr>buf = Ptr (Buffer 0) 6, len = 0\<rparr> \<noteq> MU_STRING_NOT_FOUND"
proof (intro conjI)
  show "mu_string_split_at_char
     (poke zero_heap (Ptr (Buffer 0) 0) (bytes_of ''no delimiter''))
     \<lparr>buf = Ptr (Buffer 0) 0, len = 12\<rparr> (Some MU_STRING_EMPTY) 0x3D
     = (\<lparr>buf = Ptr (Buffer 0) 0, len = 12\<rparr>, Some MU_STRING_NOT_FOUND)"
    by (simp add: mu_string_split_at_char_def mu_string_is_valid_def first_index.simps
        bytes_of_def zero_heap_def)
  show "mu_string_split_by_not_pred
     (poke zero_heap (Ptr (Buffer 0) 0) (bytes_of ''123456''))
     \<lparr>buf = Ptr (Buffer 0) 0, len = 6\<rparr> (Some MU_STRING_EMPTY) (Some is_digit_pred) ()
     = (\<lparr>buf = Ptr (Buffer 0) 0, len = 6\<rparr>, Some \<lparr>buf = Ptr (Buffer 0) 6, len = 0\<rparr>)"
    by (simp add: mu_string_split_by_not_pred_def mu_string_split_handle_result_def
        mu_string_is_valid_def first_index.simps bytes_of_def zero_heap_def is_digit_pred_def
        MU_STRING_EMPTY_def)
qed (simp_all add: mu_string_eq_def mu_string_is_valid_def MU_STRING_NOT_FOUND_def)

theorem split_not_found_returns_subject_witness:
  "len (fst (mu_string_split_at_char
     (poke zero_heap (Ptr (Buffer 0) 0) (bytes_of ''no delimiter''))
     \<lparr>buf = Ptr (Buffer 0) 0, len = 12\<rparr> (Some MU_STRING_EMPTY) 0x3D)) = 12"
  using split_not_found_returns_subject
  by simp

text \<open>
  C4, as stated: for every valid subject with no matching byte \<open>*after\<close> receives an
  empty view that is not the NotFound sentinel. The view \<open>{NULL, 0}\<close> is valid and has no
  byte at all; on it the code stores \<open>{s.buf + s.len, 0} = {NULL, 0}\<close>, and these are the
  fields of \<open>MU_STRING_NOT_FOUND\<close>.
\<close>

theorem split_by_pred_null_subject_counterexample:
  "mu_string_is_valid \<lparr>buf = Null, len = 0\<rparr>
   \<and> mu_string_split_by_pred zero_heap \<lparr>buf = Null, len = 0\<rparr> (Some MU_STRING_EMPTY)
        (Some is_digit_pred) ()
     = (\<lparr>buf = Null, len = 0\<rparr>, Some MU_STRING_NOT_FOUND)"
  by (simp add: mu_string_split_by_pred_def mu_string_is_valid_def first_index.simps
      MU_STRING_NOT_FOUND_def MU_STRING_EMPTY_def)

text \<open>
  C4, amended: when \<open>s\<close> is valid, the predicate is not null and no byte of \<open>s\<close>
  satisfies it, \<open>mu_string_split_by_pred\<close> returns \<open>s\<close> itself and, given an
  out-parameter, writes to it the view of length 0 at \<open>s.buf + s.len\<close>. That view is empty
  and valid; it is \<open>MU_STRING_NOT_FOUND\<close> exactly when the buffer of \<open>s\<close> is null, so
  for every subject with a buffer it is not the sentinel.
\<close>

theorem split_by_pred_no_match:
  assumes valid: "mu_string_is_valid s"
    and no_match: "\<forall>i. i < len s \<longrightarrow> \<not> p (h (ptr_add (buf s) i)) arg"
  shows "mu_string_split_by_pred h s after (Some p) arg =
           (s, map_option (\<lambda>a. \<lparr>buf = ptr_add (buf s) (len s), len = 0\<rparr>) after)
         \<and> mu_string_is_empty \<lparr>buf = ptr_add (buf s) (len s), len = 0\<rparr>
         \<and> (\<lparr>buf = ptr_add (buf s) (len s), len = 0\<rparr> = MU_STRING_NOT_FOUND \<longleftrightarrow> buf s = Null)"
proof -
  from no_match have "first_index (\<lambda>x. p x arg) h (buf s) (len s) 0 = len s"
    by (intro first_index_none) simp
  with valid have "mu_string_split_by_pred h s after (Some p) arg =
      (s, map_option (\<lambda>a. a\<lparr>buf := ptr_add (buf s) (len s), len := 0\<rparr>) after)"
    by (simp add: mu_string_split_by_pred_def)
  moreover have "(\<lambda>a :: mu_string_t. a\<lparr>buf := ptr_add (buf s) (len s), len := 0\<rparr>)
      = (\<lambda>a. \<lparr>buf = ptr_add (buf s) (len s), len = 0\<rparr>)"
    by (rule ext) simp
  moreover have "ptr_add (buf s) (len s) = Null \<longleftrightarrow> buf s = Null"
    by (cases "buf s") simp_all
  ultimately show ?thesis
    by (simp add: mu_string_is_empty_def mu_string_is_valid_def MU_STRING_NOT_FOUND_def)
qed

theorem split_by_pred_no_match_witness:
  "mu_string_split_by_pred (\<lambda>_. 0x61) \<lparr>buf = Ptr (Buffer 0) 0, len = 6\<rparr>
      (Some MU_STRING_INVALID) (Some is_digit_pred) ()
    = (\<lparr>buf = Ptr (Buffer 0) 0, len = 6\<rparr>, Some \<lparr>buf = Ptr (Buffer 0) 6, len = 0\<rparr>)
   \<and> \<lparr>buf = Ptr (Buffer 0) 6, len = 0\<rparr> \<noteq> MU_STRING_NOT_FOUND"
  using split_by_pred_no_match [of "\<lparr>buf = Ptr (Buffer 0) 0, len = 6\<rparr>" is_digit_pred "\<lambda>_. 0x61" "()" "Some MU_STRING_INVALID"]
  by (simp add: mu_string_is_valid_def is_digit_pred_def)

section \<open>Appending\<close>

text \<open>
  C5: \<open>mu_string_append\<close> returns the heap and the segment unchanged when the segment's
  buffer is null or the source is invalid or empty. Otherwise, with
  \<open>n = min(src.len, segment.len)\<close>, it returns the segment
  \<open>{segment.buf + n, segment.len - n}\<close>; the \<open>n\<close> bytes from \<open>segment.buf\<close> on hold the
  first \<open>n\<close> bytes of the source, and no other byte of the heap has changed. A source
  longer than the segment is cut to \<open>n\<close> bytes, and the result carries no error.
\<close>

theorem append_contract:
  "(mut_buf seg = Null \<or> \<not> mu_string_is_valid src \<or> len src = 0
      \<longrightarrow> mu_string_append h seg src = (h, seg))
   \<and> (mut_buf seg \<noteq> Null \<and> mu_string_is_valid src \<and> len src \<noteq> 0
      \<longrightarrow> snd (mu_string_append h seg src) =
            \<lparr>mut_buf = ptr_add (mut_buf seg) (min (len src) (mut_len seg)),
             mut_len = mut_len seg - min (len src) (mut_len seg)\<rparr>
          \<and> (\<forall>k. k < min (len src) (mut_len seg)
                \<longrightarrow> fst (mu_string_append h seg src) (ptr_add (mut_buf seg) k)
                      = h (ptr_add (buf src) k))
          \<and> (\<forall>a. (\<forall>k. k < min (len src) (mut_len seg) \<longrightarrow> a \<noteq> ptr_add (mut_buf seg) k)
                \<longrightarrow> fst (mu_string_append h seg src) a = h a))"
proof (intro conjI impI)
  assume "mut_buf seg = Null \<or> \<not> mu_string_is_valid src \<or> len src = 0"
  then show "mu_string_append h seg src = (h, seg)"
    by (auto simp: mu_string_append_def)
next
  assume a: "mut_buf seg \<noteq> Null \<and> mu_string_is_valid src \<and> len src \<noteq> 0"
  define n where "n = min (len src) (mut_len seg)"
  have n_eq: "(if len src < mut_len seg then len src else mut_len seg) = n"
    by (auto simp: n_def min_def)
  have res: "mu_string_append h seg src =
      (if 0 < n then memcpy h (mut_buf seg) (buf src) n else h,
       \<lparr>mut_buf = ptr_add (mut_buf seg) n, mut_len = mut_len seg - n\<rparr>)"
    using a by (simp add: mu_string_append_def n_eq Let_def)
  show "snd (mu_string_append h seg src) =
      \<lparr>mut_buf = ptr_add (mut_buf seg) (min (len src) (mut_len seg)),
       mut_len = mut_len seg - min (len src) (mut_len seg)\<rparr>"
    by (simp add: res n_def)
  show "\<forall>k. k < min (len src) (mut_len seg)
      \<longrightarrow> fst (mu_string_append h seg src) (ptr_add (mut_buf seg) k) = h (ptr_add (buf src) k)"
  proof (intro allI impI)
    fix k
    assume "k < min (len src) (mut_len seg)"
    then have k: "k < n" by (simp add: n_def)
    then have "0 < n"
      by unat_arith
    with a k show "fst (mu_string_append h seg src) (ptr_add (mut_buf seg) k) = h (ptr_add (buf src) k)"
      by (simp add: res memcpy_inside)
  qed
  show "\<forall>a. (\<forall>k. k < min (len src) (mut_len seg) \<longrightarrow> a \<noteq> ptr_add (mut_buf seg) k)
      \<longrightarrow> fst (mu_string_append h seg src) a = h a"
    by (simp add: res memcpy_outside n_def)
qed

theorem append_contract_witness:
  "mu_string_append zero_heap \<lparr>mut_buf = Null, mut_len = 10\<rparr> \<lparr>buf = Ptr (Buffer 0) 0, len = 3\<rparr>
     = (zero_heap, \<lparr>mut_buf = Null, mut_len = 10\<rparr>)
   \<and> snd (mu_string_append zero_heap \<lparr>mut_buf = Ptr (Buffer 1) 0, mut_len = 10\<rparr>
           \<lparr>buf = Ptr (Buffer 0) 0, len = 18\<rparr>)
     = \<lparr>mut_buf = Ptr (Buffer 1) 10, mut_len = 0\<rparr>"
  using append_contract [of "\<lparr>mut_buf = Null, mut_len = 10\<rparr>"
      "\<lparr>buf = Ptr (Buffer 0) 0, len = 3\<rparr>" zero_heap]
    append_contract [of "\<lparr>mut_buf = Ptr (Buffer 1) 0, mut_len = 10\<rparr>"
      "\<lparr>buf = Ptr (Buffer 0) 0, len = 18\<rparr>" zero_heap]
  by (simp add: mu_string_is_valid_def)

section \<open>Chained appends\<close>


lemma unat_lt_2p64: "unat (c :: size_t) < 2 ^ 64"
  using unsigned_less [of c] by simp




lemma ptr_add_Null_iff: "ptr_add p n = Null \<longleftrightarrow> p = Null"
  by (cases p) simp_all

lemma length_view_bytes: "length (view_bytes h v) = unat (len v)"
  by (simp add: view_bytes_def peek_def)











lemma length_concat_view_bytes: "length (concat (map (view_bytes h) vs)) = total_len vs"
  by (induction vs) (simp_all add: total_len_def length_view_bytes)






section \<open>Substring search\<close>

declare memcmp_from.simps [simp del]

lemma unat_succ_not_max: "m \<noteq> - 1 \<Longrightarrow> unat (m + 1) = Suc (unat m)" for m :: "'a::len word"
proof -
  assume "m \<noteq> - 1"
  then have "1 + m \<noteq> 0"
    by (metis add.commute max_word_wrap)
  then have "unat (1 + m) = Suc (unat m)"
    by (rule unatSuc)
  then show ?thesis
    by (simp add: add.commute)
qed

lemma not_max_less_succ: "m \<noteq> - 1 \<Longrightarrow> m < m + 1" for m :: "'a::len word"
  by (simp add: word_less_nat_alt unat_succ_not_max)

lemma less_succ_imp_le: "m \<noteq> - 1 \<Longrightarrow> i < m + 1 \<Longrightarrow> i \<le> m" for m :: "'a::len word"
  by (simp add: word_less_nat_alt word_le_nat_alt unat_succ_not_max)

lemma word_less_imp_le_succ: "(i :: 'a::len word) < k \<Longrightarrow> i \<le> i + 1"
  by unat_arith

lemma unat_diff_succ: "Suc d = unat (k - i) \<Longrightarrow> unat (k - (i + 1)) = d" for k i :: "'a::len word"
proof -
  assume a: "Suc d = unat (k - i)"
  then have "k - i \<noteq> 0"
    by auto
  then have "unat (k - i - 1) = unat (k - i) - 1"
    by (rule unat_minus_one)
  with a show ?thesis
    by (simp add: diff_diff_eq)
qed

lemma memcmp_from_eq_0_iff:
  "memcmp_from h p q n i = 0 \<longleftrightarrow> (\<forall>j. i \<le> j \<and> j < n \<longrightarrow> h (ptr_add p j) = h (ptr_add q j))"
proof (induction h p q n i rule: memcmp_from.induct)
  case (1 h p q n i)
  show ?case
  proof (cases "i < n")
    case True
    note lt = this
    show ?thesis
    proof (cases "h (ptr_add p i) = h (ptr_add q i)")
      case True
      from lt have le: "i \<le> i + 1"
        by unat_arith
      have "(\<forall>j. i \<le> j \<and> j < n \<longrightarrow> h (ptr_add p j) = h (ptr_add q j))
          \<longleftrightarrow> (\<forall>j. i + 1 \<le> j \<and> j < n \<longrightarrow> h (ptr_add p j) = h (ptr_add q j))"
      proof (intro iffI allI impI)
        fix j
        assume a: "\<forall>j. i + 1 \<le> j \<and> j < n \<longrightarrow> h (ptr_add p j) = h (ptr_add q j)"
          and j: "i \<le> j \<and> j < n"
        show "h (ptr_add p j) = h (ptr_add q j)"
        proof (cases "j = i")
          case True
          with \<open>h (ptr_add p i) = h (ptr_add q i)\<close> show ?thesis by simp
        next
          case False
          with j lt have "i + 1 \<le> j"
            by unat_arith
          with a j show ?thesis by simp
        qed
      next
        fix j
        assume a: "\<forall>j. i \<le> j \<and> j < n \<longrightarrow> h (ptr_add p j) = h (ptr_add q j)"
          and j: "i + 1 \<le> j \<and> j < n"
        with le have "i \<le> j" by (meson order_trans)
        with a j show "h (ptr_add p j) = h (ptr_add q j)" by simp
      qed
      moreover from lt True have "memcmp_from h p q n i = memcmp_from h p q n (i + 1)"
        by (simp add: memcmp_from.simps [of h p q n i])
      ultimately show ?thesis
        using 1 lt True by simp
    next
      case False
      with lt have "memcmp_from h p q n i \<noteq> 0"
        by (simp add: memcmp_from.simps [of h p q n i])
      with lt False show ?thesis
        by auto
    qed
  next
    case False
    then have "memcmp_from h p q n i = 0"
      by (simp add: memcmp_from.simps [of h p q n i])
    with False show ?thesis
      by auto
  qed
qed

lemma memcmp_eq_0_iff:
  "memcmp h (ptr_add (buf haystack) k) (buf needle) (len needle) = 0 \<longleftrightarrow> occurs_at h haystack needle k"
  by (simp add: memcmp_def memcmp_from_eq_0_iff occurs_at_def ptr_add_add)

lemma find_str_loop_found:
  assumes "k \<le> len haystack - len needle" and "occurs_at h haystack needle k"
  shows "i \<le> k \<Longrightarrow> (\<forall>j. i \<le> j \<and> j < k \<longrightarrow> \<not> occurs_at h haystack needle j) \<Longrightarrow>
    find_str_loop h haystack needle i = Some \<lparr>buf = ptr_add (buf haystack) k, len = len haystack - k\<rparr>"
proof (induction "unat (k - i)" arbitrary: i)
  case 0
  then have "i = k"
    by (simp add: unat_eq_0)
  with assms show ?case
    by (subst find_str_loop.simps) (simp add: memcmp_eq_0_iff)
next
  case (Suc d)
  from Suc.hyps(2) have "i \<noteq> k"
    by auto
  with Suc.prems have lt: "i < k"
    by simp
  have step1: "i + 1 \<le> k"
    using lt by (rule inc_le)
  have step2: "unat (k - (i + 1)) = d"
    by (rule unat_diff_succ [OF Suc.hyps(2)])
  have step3: "i \<le> i + 1"
    using lt by (rule word_less_imp_le_succ)
  note step = step1 step2 step3
  from lt assms(1) have "i \<le> len haystack - len needle"
    by simp
  moreover from Suc.prems lt have "\<not> occurs_at h haystack needle i"
    by simp
  ultimately have "find_str_loop h haystack needle i = find_str_loop h haystack needle (i + 1)"
    by (subst find_str_loop.simps) (simp add: memcmp_eq_0_iff)
  moreover have "find_str_loop h haystack needle (i + 1)
      = Some \<lparr>buf = ptr_add (buf haystack) k, len = len haystack - k\<rparr>"
  proof (rule Suc.hyps(1))
    show "d = unat (k - (i + 1))"
      using step by simp
    show "i + 1 \<le> k"
      by (rule step)
    show "\<forall>j. i + 1 \<le> j \<and> j < k \<longrightarrow> \<not> occurs_at h haystack needle j"
      using Suc.prems(2) step(3) by auto
  qed
  ultimately show ?case
    by simp
qed

lemma find_str_loop_absent:
  assumes room: "len haystack - len needle \<noteq> - 1"
  shows "i \<le> len haystack - len needle + 1 \<Longrightarrow>
    (\<forall>j. i \<le> j \<and> j \<le> len haystack - len needle \<longrightarrow> \<not> occurs_at h haystack needle j) \<Longrightarrow>
    find_str_loop h haystack needle i = Some MU_STRING_EMPTY"
proof (induction "unat (len haystack - len needle + 1 - i)" arbitrary: i)
  case 0
  then have "i = len haystack - len needle + 1"
    by (simp add: unat_eq_0)
  with not_max_less_succ [OF room] have "\<not> i \<le> len haystack - len needle"
    by simp
  then show ?case
    by (subst find_str_loop.simps) simp
next
  case (Suc d)
  from Suc.hyps(2) have "i \<noteq> len haystack - len needle + 1"
    by auto
  with Suc.prems(1) have lt: "i < len haystack - len needle + 1"
    by simp
  with room have le: "i \<le> len haystack - len needle"
    by (simp add: less_succ_imp_le)
  have step1: "i + 1 \<le> len haystack - len needle + 1"
    using lt by (rule inc_le)
  have step2: "unat (len haystack - len needle + 1 - (i + 1)) = d"
    by (rule unat_diff_succ [OF Suc.hyps(2)])
  have step3: "i \<le> i + 1"
    using lt by (rule word_less_imp_le_succ)
  note step = step1 step2 step3
  from Suc.prems le have "\<not> occurs_at h haystack needle i"
    by simp
  with le have "find_str_loop h haystack needle i = find_str_loop h haystack needle (i + 1)"
    by (subst find_str_loop.simps) (simp add: memcmp_eq_0_iff)
  moreover have "find_str_loop h haystack needle (i + 1) = Some MU_STRING_EMPTY"
  proof (rule Suc.hyps(1))
    show "d = unat (len haystack - len needle + 1 - (i + 1))"
      using step by simp
    show "i + 1 \<le> len haystack - len needle + 1"
      by (rule step)
    show "\<forall>j. i + 1 \<le> j \<and> j \<le> len haystack - len needle \<longrightarrow> \<not> occurs_at h haystack needle j"
      using Suc.prems(2) step(3) by auto
  qed
  ultimately show ?case
    by simp
qed


lemma find_str_room:
  assumes "len needle \<noteq> 0" and "len needle \<le> len haystack"
  shows "len haystack - len needle \<noteq> - 1"
proof
  assume "len haystack - len needle = - 1"
  then have "unat (len haystack - len needle) = unat (- 1 :: size_t)"
    by simp
  moreover from assms(2) have "unat (len haystack - len needle) = unat (len haystack) - unat (len needle)"
    by (rule unat_sub)
  moreover from assms(1) have "unat (len needle) \<noteq> 0"
    by (simp add: unat_eq_0)
  moreover have "unat (len haystack) < 2 ^ 64"
    by (rule unat_lt_2p64)
  moreover have "unat (- 1 :: size_t) = 2 ^ 64 - 1"
    by (simp add: unsigned_minus_1_eq_mask mask_eq_exp_minus_1)
  ultimately show False
    by simp
qed

lemma find_str_empty_needle:
  assumes "mu_string_is_valid haystack" and "mu_string_is_valid needle" and "len needle = 0"
  shows "mu_string_find_str h haystack needle = Some haystack"
  using assms by (simp add: mu_string_find_str_def)

lemma find_str_long_needle:
  assumes "mu_string_is_valid haystack" and "mu_string_is_valid needle"
    and "len haystack < len needle"
  shows "mu_string_find_str h haystack needle = Some MU_STRING_EMPTY"
proof -
  from assms(3) have "len needle \<noteq> 0"
    by auto
  with assms show ?thesis
    by (simp add: mu_string_find_str_def)
qed

lemma find_str_enters_loop:
  assumes "mu_string_is_valid haystack" and "mu_string_is_valid needle"
    and "len needle \<noteq> 0" and "len needle \<le> len haystack"
  shows "mu_string_find_str h haystack needle = find_str_loop h haystack needle 0"
  using assms by (simp add: mu_string_find_str_def not_less [symmetric])

lemma find_str_found:
  assumes "mu_string_is_valid haystack" and "mu_string_is_valid needle"
    and "len needle \<noteq> 0" and "len needle \<le> len haystack"
    and "k \<le> len haystack - len needle" and "occurs_at h haystack needle k"
    and "\<forall>j. j < k \<longrightarrow> \<not> occurs_at h haystack needle j"
  shows "mu_string_find_str h haystack needle
    = Some \<lparr>buf = ptr_add (buf haystack) k, len = len haystack - k\<rparr>"
  using assms by (simp add: find_str_enters_loop find_str_loop_found)

lemma find_str_absent:
  assumes "mu_string_is_valid haystack" and "mu_string_is_valid needle"
    and "len needle \<noteq> 0" and "len needle \<le> len haystack"
    and "\<forall>k. k \<le> len haystack - len needle \<longrightarrow> \<not> occurs_at h haystack needle k"
  shows "mu_string_find_str h haystack needle = Some MU_STRING_EMPTY"
  using assms find_str_room [of needle haystack]
  by (simp add: find_str_enters_loop find_str_loop_absent)

lemma find_str_returns:
  assumes valid: "mu_string_is_valid haystack" "mu_string_is_valid needle"
  shows "mu_string_find_str h haystack needle \<noteq> None"
proof (cases "len needle = 0 \<or> len haystack < len needle")
  case True
  with find_str_empty_needle [OF valid] find_str_long_needle [OF valid] show ?thesis
    by auto
next
  case False
  then have ne: "len needle \<noteq> 0" "len needle \<le> len haystack"
    by auto
  show ?thesis
  proof (cases "\<exists>k. k \<le> len haystack - len needle \<and> occurs_at h haystack needle k")
    case True
    define k0 where "k0 = (LEAST k. k \<le> len haystack - len needle \<and> occurs_at h haystack needle k)"
    from True have first: "k0 \<le> len haystack - len needle \<and> occurs_at h haystack needle k0"
      unfolding k0_def by (rule LeastI_ex)
    have "\<not> occurs_at h haystack needle j" if "j < k0" for j
    proof -
      from that have "\<not> (j \<le> len haystack - len needle \<and> occurs_at h haystack needle j)"
        unfolding k0_def by (rule not_less_Least)
      moreover from that first have "j \<le> len haystack - len needle"
        by (meson order_less_imp_le order_trans)
      ultimately show ?thesis
        by simp
    qed
    with first show ?thesis
      using find_str_found [OF valid ne, of k0 h] by simp
  next
    case False
    with find_str_absent [OF valid ne, of h] show ?thesis
      by simp
  qed
qed

text \<open>
  C7: for a valid haystack and a valid needle \<open>mu_string_find_str\<close> always returns. It
  returns the haystack itself when the needle is empty and \<open>MU_STRING_EMPTY\<close> when the
  needle is longer than the haystack. Otherwise, when \<open>k\<close> is the first index at which
  the bytes of the needle occur, it returns the rest of the haystack from \<open>k\<close> on,
  \<open>{haystack.buf + k, haystack.len - k}\<close>, and when there is no such index it returns
  \<open>MU_STRING_EMPTY\<close>.
\<close>

theorem find_str_contract:
  assumes "mu_string_is_valid haystack" and "mu_string_is_valid needle"
  shows "(len needle = 0 \<longrightarrow> mu_string_find_str h haystack needle = Some haystack)
    \<and> (len haystack < len needle \<longrightarrow> mu_string_find_str h haystack needle = Some MU_STRING_EMPTY)
    \<and> (len needle \<noteq> 0 \<and> len needle \<le> len haystack \<longrightarrow>
         (\<forall>k. k \<le> len haystack - len needle \<and> occurs_at h haystack needle k
               \<and> (\<forall>j. j < k \<longrightarrow> \<not> occurs_at h haystack needle j)
             \<longrightarrow> mu_string_find_str h haystack needle
                   = Some \<lparr>buf = ptr_add (buf haystack) k, len = len haystack - k\<rparr>)
         \<and> ((\<forall>k. k \<le> len haystack - len needle \<longrightarrow> \<not> occurs_at h haystack needle k)
             \<longrightarrow> mu_string_find_str h haystack needle = Some MU_STRING_EMPTY))
    \<and> mu_string_find_str h haystack needle \<noteq> None"
proof (intro conjI impI allI)
  assume "len needle = 0"
  with assms show "mu_string_find_str h haystack needle = Some haystack"
    by (rule find_str_empty_needle)
next
  assume "len haystack < len needle"
  with assms show "mu_string_find_str h haystack needle = Some MU_STRING_EMPTY"
    by (rule find_str_long_needle)
next
  fix k
  assume "len needle \<noteq> 0 \<and> len needle \<le> len haystack"
    and "k \<le> len haystack - len needle \<and> occurs_at h haystack needle k
      \<and> (\<forall>j. j < k \<longrightarrow> \<not> occurs_at h haystack needle j)"
  with assms show "mu_string_find_str h haystack needle
      = Some \<lparr>buf = ptr_add (buf haystack) k, len = len haystack - k\<rparr>"
    by (intro find_str_found) simp_all
next
  assume "len needle \<noteq> 0 \<and> len needle \<le> len haystack"
    and "\<forall>k. k \<le> len haystack - len needle \<longrightarrow> \<not> occurs_at h haystack needle k"
  with assms show "mu_string_find_str h haystack needle = Some MU_STRING_EMPTY"
    by (intro find_str_absent) simp_all
next
  from assms show "mu_string_find_str h haystack needle \<noteq> None"
    by (rule find_str_returns)
qed

theorem find_str_contract_witness:
  "mu_string_find_str
     (poke (poke zero_heap (Ptr (Buffer 0) 0) (bytes_of ''hello world world''))
        (Ptr (Buffer 1) 0) (bytes_of ''world''))
     \<lparr>buf = Ptr (Buffer 0) 0, len = 17\<rparr> \<lparr>buf = Ptr (Buffer 1) 0, len = 5\<rparr>
   = Some \<lparr>buf = Ptr (Buffer 0) 6, len = 11\<rparr>
   \<and> mu_string_find_str zero_heap \<lparr>buf = Ptr (Buffer 0) 0, len = 3\<rparr> MU_STRING_EMPTY
     = Some \<lparr>buf = Ptr (Buffer 0) 0, len = 3\<rparr>
   \<and> mu_string_find_str zero_heap \<lparr>buf = Ptr (Buffer 0) 0, len = 3\<rparr>
       \<lparr>buf = Ptr (Buffer 1) 0, len = 5\<rparr> = Some MU_STRING_EMPTY
   \<and> mu_string_find_str (zero_heap (Ptr (Buffer 1) 0 := 0x7A)) \<lparr>buf = Ptr (Buffer 0) 0, len = 3\<rparr>
       \<lparr>buf = Ptr (Buffer 1) 0, len = 2\<rparr> = Some MU_STRING_EMPTY"
proof -
  let ?h = "poke (poke zero_heap (Ptr (Buffer 0) 0) (bytes_of ''hello world world''))
        (Ptr (Buffer 1) 0) (bytes_of ''world'')"
  let ?hay = "\<lparr>buf = Ptr (Buffer 0) 0, len = 17\<rparr>"
  let ?needle = "\<lparr>buf = Ptr (Buffer 1) 0, len = 5\<rparr>"
  have valid: "mu_string_is_valid ?hay" "mu_string_is_valid ?needle"
    by (simp_all add: mu_string_is_valid_def)
  have "memcmp ?h (ptr_add (buf ?hay) 6) (buf ?needle) (len ?needle) = 0"
    by code_simp
  then have here: "occurs_at ?h ?hay ?needle 6"
    by (simp only: memcmp_eq_0_iff)
  have "list_all (\<lambda>k. memcmp ?h (ptr_add (buf ?hay) (of_nat k)) (buf ?needle) (len ?needle) \<noteq> 0) [0..<6]"
    by code_simp
  then have earlier: "\<forall>k<6. \<not> occurs_at ?h ?hay ?needle (of_nat k)"
    by (simp only: memcmp_eq_0_iff list_all_iff) simp
  have before: "\<forall>j. j < 6 \<longrightarrow> \<not> occurs_at ?h ?hay ?needle j"
  proof (intro allI impI)
    fix j :: size_t
    assume "j < 6"
    then have "unat j < 6"
      by (simp add: word_less_nat_alt)
    with earlier have "\<not> occurs_at ?h ?hay ?needle (of_nat (unat j))"
      by blast
    then show "\<not> occurs_at ?h ?hay ?needle j"
      by simp
  qed
  from find_str_contract [OF valid, of ?h]
  have "\<forall>k. k \<le> 12 \<and> occurs_at ?h ?hay ?needle k
        \<and> (\<forall>j. j < k \<longrightarrow> \<not> occurs_at ?h ?hay ?needle j)
      \<longrightarrow> mu_string_find_str ?h ?hay ?needle
            = Some \<lparr>buf = ptr_add (buf ?hay) k, len = len ?hay - k\<rparr>"
    by simp
  from this [rule_format, of 6] here before
  have found: "mu_string_find_str ?h ?hay ?needle = Some \<lparr>buf = Ptr (Buffer 0) 6, len = 11\<rparr>"
    by simp
  have "\<not> occurs_at (zero_heap (Ptr (Buffer 1) 0 := 0x7A)) \<lparr>buf = Ptr (Buffer 0) 0, len = 3\<rparr>
      \<lparr>buf = Ptr (Buffer 1) 0, len = 2\<rparr> k" for k
    by (auto simp: occurs_at_def zero_heap_def intro!: exI [of _ 0])
  with found
    find_str_contract [of "\<lparr>buf = Ptr (Buffer 0) 0, len = 3\<rparr>" MU_STRING_EMPTY zero_heap]
    find_str_contract [of "\<lparr>buf = Ptr (Buffer 0) 0, len = 3\<rparr>"
      "\<lparr>buf = Ptr (Buffer 1) 0, len = 5\<rparr>" zero_heap]
    find_str_contract [of "\<lparr>buf = Ptr (Buffer 0) 0, len = 3\<rparr>"
      "\<lparr>buf = Ptr (Buffer 1) 0, len = 2\<rparr>" "zero_heap (Ptr (Buffer 1) 0 := 0x7A)"]
  show ?thesis
    by (simp add: mu_string_is_valid_def MU_STRING_EMPTY_def)
qed

section \<open>The backward loop\<close>

declare last_index.simps [simp del]

lemma sint_dec: "0 \<le> sint i \<Longrightarrow> sint (i - 1) = sint i - 1" for i :: c_int
  using sint_lt [of i]
  by (simp add: sint_word_ariths signed_take_bit_int_eq_self)

lemma sint_nonneg_uint: "0 \<le> sint i \<Longrightarrow> sint i = uint i" for i :: "32 word"
proof -
  assume "0 \<le> sint i"
  moreover have "sint i < 2 ^ 32"
    using sint_lt [of i] by simp
  ultimately have "take_bit 32 (sint i) = sint i"
    by (simp add: take_bit_int_eq_self)
  then show ?thesis
    using uint_sint [of i] by simp
qed

lemma uint_scast_nonneg: "0 \<le> sint i \<Longrightarrow> uint (scast i :: 64 word) = uint i" for i :: "32 word"
proof -
  assume a: "0 \<le> sint i"
  have "sint i < 2 ^ LENGTH(64)"
    using sint_lt [of i] by simp
  with a have "take_bit LENGTH(64) (sint i) = sint i"
    by (rule take_bit_int_eq_self)
  moreover have "uint (scast i :: 64 word) = take_bit LENGTH(64) (sint i)"
    by (simp only: scast_eq uint_word_of_int_eq)
  ultimately have "uint (scast i :: 64 word) = sint i"
    by (rule trans [rotated])
  with sint_nonneg_uint [OF a] show ?thesis
    by simp
qed

lemma unat_ucast_le: "unat (ucast n :: 32 word) \<le> unat n" for n :: "64 word"
  by (simp add: unsigned_ucast_eq take_bit_eq_mod)

lemma scast_index_in_range:
  fixes n :: "64 word" and j :: "32 word"
  assumes "0 \<le> sint j" and "sint j \<le> sint (ucast n - 1 :: 32 word)"
  shows "(scast j :: 64 word) < n"
proof -
  let ?l = "ucast n :: 32 word"
  from assms have top: "0 \<le> sint (?l - 1)"
    by simp
  have "?l \<noteq> 0"
  proof
    assume "?l = 0"
    then have "sint (?l - 1) = - 1"
      by simp
    with top show False
      by simp
  qed
  then have m1: "unat (?l - 1) = unat ?l - 1"
    by (rule unat_minus_one)
  from \<open>?l \<noteq> 0\<close> have nz: "unat ?l \<noteq> 0"
    by (simp only: unat_eq_0 not_False_eq_True)
  from top have s1: "sint (?l - 1) = uint (?l - 1)"
    by (rule sint_nonneg_uint)
  from assms(1) have s2: "sint j = uint j"
    by (rule sint_nonneg_uint)
  from assms(2) have "uint j \<le> uint (?l - 1)"
    unfolding s1 s2 .
  then have "int (unat j) \<le> int (unat (?l - 1))"
    by (simp only: uint_nat)
  then have "unat j \<le> unat (?l - 1)"
    by (simp only: of_nat_le_iff)
  with m1 nz have "unat j < unat ?l"
    by linarith
  also have "\<dots> \<le> unat n"
    by (rule unat_ucast_le)
  finally have "unat j < unat n" .
  moreover have "unat (scast j :: 64 word) = unat j"
    unfolding unat_eq_nat_uint uint_scast_nonneg [OF assms(1)] ..
  ultimately show ?thesis
    by (simp add: word_less_nat_alt)
qed

lemma last_index_negative:
  "\<forall>j :: c_int. 0 \<le> sint j \<and> sint j \<le> sint i \<longrightarrow> \<not> P (h (ptr_add b (scast j)))
    \<Longrightarrow> sint (last_index P h b i) < 0"
proof (induction P h b i rule: last_index.induct)
  case (1 P h b i)
  show ?case
  proof (cases "0 \<le> sint i")
    case True
    then have dec: "sint (i - 1) = sint i - 1"
      by (rule sint_dec)
    from True "1.prems" have here: "\<not> P (h (ptr_add b (scast i)))"
      by blast
    with True have "last_index P h b i = last_index P h b (i - 1)"
      by (simp add: last_index.simps [of P h b i])
    moreover have "sint (last_index P h b (i - 1)) < 0"
    proof (rule "1.IH")
      show "0 \<le> sint i"
        by (rule True)
      show "\<not> P (h (ptr_add b (scast i)))"
        by (rule here)
      show "\<forall>j :: c_int. 0 \<le> sint j \<and> sint j \<le> sint (i - 1) \<longrightarrow> \<not> P (h (ptr_add b (scast j)))"
      proof (intro allI impI)
        fix j :: c_int
        assume "0 \<le> sint j \<and> sint j \<le> sint (i - 1)"
        then have "0 \<le> sint j \<and> sint j \<le> sint i"
          unfolding dec by linarith
        with "1.prems" show "\<not> P (h (ptr_add b (scast j)))"
          by blast
      qed
    qed
    ultimately show ?thesis
      by simp
  next
    case False
    then show ?thesis
      by (simp add: last_index.simps [of P h b i])
  qed
qed

lemma last_index_no_match:
  assumes "\<forall>k. k < n \<longrightarrow> \<not> P (h (ptr_add b k))"
  shows "sint (last_index P h b (ucast n - 1)) < 0"
proof (rule last_index_negative, intro allI impI)
  fix j :: c_int
  assume "0 \<le> sint j \<and> sint j \<le> sint (ucast n - 1 :: c_int)"
  then have "(scast j :: size_t) < n"
    by (intro scast_index_in_range) blast+
  with assms show "\<not> P (h (ptr_add b (scast j)))"
    by blast
qed

lemma find_char_no_match:
  assumes "mu_string_is_valid s" and "\<forall>i. i < len s \<longrightarrow> h (ptr_add (buf s) i) \<noteq> c"
  shows "mu_string_find_char h s c = MU_STRING_EMPTY"
proof -
  from assms(2) have "first_index (\<lambda>x. x = c) h (buf s) (len s) 0 = len s"
    by (intro first_index_none) simp
  with assms(1) show ?thesis
    by (simp add: mu_string_find_char_def)
qed

lemma rfind_char_no_match:
  assumes "mu_string_is_valid s" and "\<forall>i. i < len s \<longrightarrow> h (ptr_add (buf s) i) \<noteq> c"
  shows "mu_string_rfind_char h s c = MU_STRING_EMPTY"
proof -
  from assms(2) have "sint (last_index (\<lambda>x. x = c) h (buf s) (ucast (len s) - 1)) < 0"
    by (intro last_index_no_match) simp
  with assms(1) show ?thesis
    by (simp add: mu_string_rfind_char_def Let_def)
qed

lemma find_pred_no_match:
  assumes "mu_string_is_valid s" and "\<forall>i. i < len s \<longrightarrow> \<not> p (h (ptr_add (buf s) i)) arg"
  shows "mu_string_find_pred h s (Some p) arg = MU_STRING_EMPTY"
proof -
  from assms(2) have "first_index (\<lambda>x. p x arg) h (buf s) (len s) 0 = len s"
    by (intro first_index_none) simp
  with assms(1) show ?thesis
    by (simp add: mu_string_find_pred_def)
qed

lemma rfind_pred_no_match:
  assumes "mu_string_is_valid s" and "\<forall>i. i < len s \<longrightarrow> \<not> p (h (ptr_add (buf s) i)) arg"
  shows "mu_string_rfind_pred h s (Some p) arg = MU_STRING_EMPTY"
proof -
  from assms(2) have "sint (last_index (\<lambda>x. p x arg) h (buf s) (ucast (len s) - 1)) < 0"
    by (intro last_index_no_match) simp
  with assms(1) show ?thesis
    by (simp add: mu_string_rfind_pred_def Let_def)
qed

lemma find_first_not_pred_no_match:
  assumes "mu_string_is_valid s" and "\<forall>i. i < len s \<longrightarrow> p (h (ptr_add (buf s) i)) arg"
  shows "mu_string_find_first_not_pred h s (Some p) arg = MU_STRING_EMPTY"
proof -
  from assms(2) have "first_index (\<lambda>x. \<not> p x arg) h (buf s) (len s) 0 = len s"
    by (intro first_index_none) simp
  with assms(1) show ?thesis
    by (simp add: mu_string_find_first_not_pred_def)
qed

section \<open>What the searches return without a match\<close>

text \<open>
  C8, as stated: every search on an empty but valid subject returns Empty. With the
  Invalid sentinel as needle \<open>mu_string_find_str\<close> returns the Invalid sentinel, also on
  the empty subject \<open>MU_STRING_EMPTY\<close>.
\<close>

theorem search_empty_subject_counterexample:
  "mu_string_is_valid MU_STRING_EMPTY
   \<and> len MU_STRING_EMPTY = 0
   \<and> mu_string_find_str zero_heap MU_STRING_EMPTY MU_STRING_INVALID = Some MU_STRING_INVALID
   \<and> MU_STRING_INVALID \<noteq> MU_STRING_EMPTY
   \<and> \<not> mu_string_is_empty MU_STRING_INVALID"
  by (simp add: mu_string_find_str_def mu_string_is_valid_def mu_string_is_empty_def
      MU_STRING_EMPTY_def MU_STRING_INVALID_def SIZE_MAX_def)

text \<open>
  C8, amended. On a subject that is not valid all six searches return
  \<open>MU_STRING_INVALID\<close>. On a valid subject that is empty, or in which nothing matches,
  \<open>mu_string_find_char\<close>, \<open>mu_string_rfind_char\<close>, \<open>mu_string_find_pred\<close>,
  \<open>mu_string_rfind_pred\<close> (a null predicate matches nothing) and
  \<open>mu_string_find_first_not_pred\<close> (nothing matches when every byte satisfies the
  predicate) return \<open>MU_STRING_EMPTY\<close>, and so does \<open>mu_string_find_str\<close> for a valid
  needle that is not empty. With a needle that is not valid \<open>mu_string_find_str\<close> returns
  \<open>MU_STRING_INVALID\<close> whatever the subject, and with a valid needle of length 0 it
  returns every valid subject unchanged, an empty view when the subject is empty.
  \<open>MU_STRING_EMPTY\<close> is an empty view, and is neither \<open>MU_STRING_NOT_FOUND\<close> nor
  \<open>MU_STRING_INVALID\<close>.
\<close>

theorem search_sentinels:
  "(\<not> mu_string_is_valid s \<longrightarrow>
      mu_string_find_char h s c = MU_STRING_INVALID
      \<and> mu_string_rfind_char h s c = MU_STRING_INVALID
      \<and> mu_string_find_pred h s pred arg = MU_STRING_INVALID
      \<and> mu_string_rfind_pred h s pred arg = MU_STRING_INVALID
      \<and> mu_string_find_first_not_pred h s pred arg = MU_STRING_INVALID
      \<and> mu_string_find_str h s needle = Some MU_STRING_INVALID)
   \<and> (\<not> mu_string_is_valid needle \<longrightarrow>
      mu_string_find_str h s needle = Some MU_STRING_INVALID)
   \<and> (mu_string_is_valid s \<and> mu_string_is_valid needle \<and> len needle = 0 \<longrightarrow>
      mu_string_find_str h s needle = Some s)
   \<and> (mu_string_is_valid s \<and> len s = 0 \<longrightarrow>
      mu_string_find_char h s c = MU_STRING_EMPTY
      \<and> mu_string_rfind_char h s c = MU_STRING_EMPTY
      \<and> mu_string_find_pred h s pred arg = MU_STRING_EMPTY
      \<and> mu_string_rfind_pred h s pred arg = MU_STRING_EMPTY
      \<and> mu_string_find_first_not_pred h s pred arg = MU_STRING_EMPTY
      \<and> (mu_string_is_valid needle \<and> len needle \<noteq> 0
            \<longrightarrow> mu_string_find_str h s needle = Some MU_STRING_EMPTY)
      \<and> (mu_string_is_valid needle \<and> len needle = 0
            \<longrightarrow> mu_string_find_str h s needle = Some s \<and> mu_string_is_empty s))
   \<and> (mu_string_is_valid s \<and> (\<forall>i. i < len s \<longrightarrow> h (ptr_add (buf s) i) \<noteq> c) \<longrightarrow>
      mu_string_find_char h s c = MU_STRING_EMPTY
      \<and> mu_string_rfind_char h s c = MU_STRING_EMPTY)
   \<and> (mu_string_is_valid s
        \<and> (pred = None \<or> (\<exists>p. pred = Some p \<and> (\<forall>i. i < len s \<longrightarrow> \<not> p (h (ptr_add (buf s) i)) arg)))
      \<longrightarrow> mu_string_find_pred h s pred arg = MU_STRING_EMPTY
        \<and> mu_string_rfind_pred h s pred arg = MU_STRING_EMPTY)
   \<and> (mu_string_is_valid s
        \<and> (\<exists>p. pred = Some p \<and> (\<forall>i. i < len s \<longrightarrow> p (h (ptr_add (buf s) i)) arg))
      \<longrightarrow> mu_string_find_first_not_pred h s pred arg = MU_STRING_EMPTY)
   \<and> (mu_string_is_valid s \<and> mu_string_is_valid needle \<and> len needle \<noteq> 0
        \<and> (len s < len needle \<or> (\<forall>k. k \<le> len s - len needle \<longrightarrow> \<not> occurs_at h s needle k))
      \<longrightarrow> mu_string_find_str h s needle = Some MU_STRING_EMPTY)
   \<and> mu_string_is_empty MU_STRING_EMPTY
   \<and> MU_STRING_EMPTY \<noteq> MU_STRING_NOT_FOUND
   \<and> MU_STRING_EMPTY \<noteq> MU_STRING_INVALID"
proof -
  have invalid: "mu_string_find_char h s c = MU_STRING_INVALID
      \<and> mu_string_rfind_char h s c = MU_STRING_INVALID
      \<and> mu_string_find_pred h s pred arg = MU_STRING_INVALID
      \<and> mu_string_rfind_pred h s pred arg = MU_STRING_INVALID
      \<and> mu_string_find_first_not_pred h s pred arg = MU_STRING_INVALID
      \<and> mu_string_find_str h s needle = Some MU_STRING_INVALID"
    if "\<not> mu_string_is_valid s"
    using that
    by (simp add: mu_string_find_char_def mu_string_rfind_char_def mu_string_find_pred_def
        mu_string_rfind_pred_def mu_string_find_first_not_pred_def mu_string_find_str_def)
  have invalid_needle: "mu_string_find_str h s needle = Some MU_STRING_INVALID"
    if "\<not> mu_string_is_valid needle"
    using that by (simp add: mu_string_find_str_def)
  have no_needle: "mu_string_find_str h s needle = Some s"
    if "mu_string_is_valid s \<and> mu_string_is_valid needle \<and> len needle = 0"
    using that by (simp add: mu_string_find_str_def)
  have empty: "mu_string_find_char h s c = MU_STRING_EMPTY
      \<and> mu_string_rfind_char h s c = MU_STRING_EMPTY
      \<and> mu_string_find_pred h s pred arg = MU_STRING_EMPTY
      \<and> mu_string_rfind_pred h s pred arg = MU_STRING_EMPTY
      \<and> mu_string_find_first_not_pred h s pred arg = MU_STRING_EMPTY"
    if "mu_string_is_valid s \<and> len s = 0"
    using that
    by (simp add: mu_string_find_char_def mu_string_rfind_char_def mu_string_find_pred_def
        mu_string_rfind_pred_def mu_string_find_first_not_pred_def)
  have empty_str: "mu_string_find_str h s needle = Some MU_STRING_EMPTY"
    if "mu_string_is_valid s \<and> len s = 0" "mu_string_is_valid needle \<and> len needle \<noteq> 0"
  proof -
    from that have "len s < len needle"
      by (simp add: word_neq_0_conv)
    with that show ?thesis
      by (simp add: mu_string_find_str_def)
  qed
  have empty_needle: "mu_string_find_str h s needle = Some s \<and> mu_string_is_empty s"
    if "mu_string_is_valid s \<and> len s = 0" "mu_string_is_valid needle \<and> len needle = 0"
    using that by (simp add: mu_string_find_str_def mu_string_is_empty_def)
  have chars: "mu_string_find_char h s c = MU_STRING_EMPTY
      \<and> mu_string_rfind_char h s c = MU_STRING_EMPTY"
    if "mu_string_is_valid s \<and> (\<forall>i. i < len s \<longrightarrow> h (ptr_add (buf s) i) \<noteq> c)"
    using that by (simp add: find_char_no_match rfind_char_no_match)
  have preds: "mu_string_find_pred h s pred arg = MU_STRING_EMPTY
        \<and> mu_string_rfind_pred h s pred arg = MU_STRING_EMPTY"
    if "mu_string_is_valid s
        \<and> (pred = None \<or> (\<exists>p. pred = Some p \<and> (\<forall>i. i < len s \<longrightarrow> \<not> p (h (ptr_add (buf s) i)) arg)))"
  proof (cases pred)
    case None
    with that show ?thesis
      by (simp add: mu_string_find_pred_def mu_string_rfind_pred_def)
  next
    case (Some p)
    with that show ?thesis
      by (simp add: find_pred_no_match rfind_pred_no_match)
  qed
  have not_pred: "mu_string_find_first_not_pred h s pred arg = MU_STRING_EMPTY"
    if "mu_string_is_valid s
        \<and> (\<exists>p. pred = Some p \<and> (\<forall>i. i < len s \<longrightarrow> p (h (ptr_add (buf s) i)) arg))"
    using that by (auto simp: find_first_not_pred_no_match)
  have str: "mu_string_find_str h s needle = Some MU_STRING_EMPTY"
    if "mu_string_is_valid s \<and> mu_string_is_valid needle \<and> len needle \<noteq> 0
        \<and> (len s < len needle \<or> (\<forall>k. k \<le> len s - len needle \<longrightarrow> \<not> occurs_at h s needle k))"
  proof (cases "len s < len needle")
    case True
    with that show ?thesis
      by (simp add: find_str_long_needle)
  next
    case False
    with that show ?thesis
      by (simp add: find_str_absent not_less)
  qed
  have sentinels: "mu_string_is_empty MU_STRING_EMPTY \<and> MU_STRING_EMPTY \<noteq> MU_STRING_NOT_FOUND
      \<and> MU_STRING_EMPTY \<noteq> MU_STRING_INVALID"
    by (simp add: mu_string_is_empty_def mu_string_is_valid_def MU_STRING_EMPTY_def
        MU_STRING_NOT_FOUND_def MU_STRING_INVALID_def)
  from invalid invalid_needle no_needle empty empty_str empty_needle chars preds not_pred str
    sentinels
  show ?thesis
    by (intro conjI impI) blast+
qed


theorem search_sentinels_witness:
  "mu_string_rfind_pred zero_heap MU_STRING_INVALID (Some is_digit_pred) () = MU_STRING_INVALID
   \<and> mu_string_find_str zero_heap MU_STRING_INVALID MU_STRING_EMPTY = Some MU_STRING_INVALID
   \<and> mu_string_find_str (\<lambda>_. 0x61) \<lparr>buf = Ptr (Buffer 0) 0, len = 3\<rparr> MU_STRING_INVALID
       = Some MU_STRING_INVALID
   \<and> mu_string_find_str (\<lambda>_. 0x61) \<lparr>buf = Ptr (Buffer 0) 0, len = 3\<rparr> MU_STRING_EMPTY
       = Some \<lparr>buf = Ptr (Buffer 0) 0, len = 3\<rparr>
   \<and> mu_string_find_char zero_heap MU_STRING_NOT_FOUND 0x3D = MU_STRING_EMPTY
   \<and> mu_string_rfind_char (\<lambda>_. 0x61) \<lparr>buf = Ptr (Buffer 0) 0, len = 3\<rparr> 0x3D = MU_STRING_EMPTY
   \<and> mu_string_rfind_pred (\<lambda>_. 0x61) \<lparr>buf = Ptr (Buffer 0) 0, len = 3\<rparr> (Some is_digit_pred) ()
       = MU_STRING_EMPTY
   \<and> mu_string_find_str (\<lambda>_. 0x61) \<lparr>buf = Ptr (Buffer 0) 0, len = 3\<rparr>
        \<lparr>buf = Ptr (Buffer 1) 0, len = 5\<rparr> = Some MU_STRING_EMPTY
   \<and> mu_string_find_first_not_pred (\<lambda>_. 0x31) \<lparr>buf = Ptr (Buffer 0) 0, len = 3\<rparr>
        (Some is_digit_pred) () = MU_STRING_EMPTY"
  using search_sentinels [where s = MU_STRING_INVALID and h = zero_heap and c = "0x3D"
      and pred = "Some is_digit_pred" and arg = "()" and needle = MU_STRING_EMPTY]
    search_sentinels [where s = MU_STRING_NOT_FOUND and h = zero_heap and c = "0x3D"
      and pred = "Some is_digit_pred" and arg = "()" and needle = MU_STRING_EMPTY]
    search_sentinels [where s = "\<lparr>buf = Ptr (Buffer 0) 0, len = 3\<rparr>" and h = "\<lambda>_. 0x61"
      and c = "0x3D" and pred = "Some is_digit_pred" and arg = "()"
      and needle = "\<lparr>buf = Ptr (Buffer 1) 0, len = 5\<rparr>"]
    search_sentinels [where s = "\<lparr>buf = Ptr (Buffer 0) 0, len = 3\<rparr>" and h = "\<lambda>_. 0x31"
      and c = "0x3D" and pred = "Some is_digit_pred" and arg = "()"
      and needle = "\<lparr>buf = Ptr (Buffer 1) 0, len = 5\<rparr>"]
    search_sentinels [where s = "\<lparr>buf = Ptr (Buffer 0) 0, len = 3\<rparr>" and h = "\<lambda>_. 0x61"
      and c = "0x3D" and pred = "Some is_digit_pred" and arg = "()"
      and needle = MU_STRING_INVALID]
    search_sentinels [where s = "\<lparr>buf = Ptr (Buffer 0) 0, len = 3\<rparr>" and h = "\<lambda>_. 0x61"
      and c = "0x3D" and pred = "Some is_digit_pred" and arg = "()"
      and needle = MU_STRING_EMPTY]
  by (simp add: mu_string_is_valid_def is_digit_pred_def MU_STRING_INVALID_def SIZE_MAX_def
      MU_STRING_NOT_FOUND_def MU_STRING_EMPTY_def)

section \<open>Slicing\<close>

lemma sint_nonneg_uint_gen: "0 \<le> sint w \<Longrightarrow> sint w = uint w" for w :: "'a::len word"
proof -
  assume a: "0 \<le> sint w"
  have "sint w < 2 ^ (LENGTH('a) - 1)"
    by (rule sint_lt)
  also have "(2 :: int) ^ (LENGTH('a) - 1) \<le> 2 ^ LENGTH('a)"
    by (rule power_increasing) simp_all
  finally have "take_bit LENGTH('a) (sint w) = sint w"
    using a by (intro take_bit_int_eq_self)
  then show ?thesis
    using uint_sint [of w] by simp
qed

lemma sint_neg_uint_gen: "sint w < 0 \<Longrightarrow> sint w = uint w - 2 ^ LENGTH('a)" for w :: "'a::len word"
proof -
  assume a: "sint w < 0"
  have lo: "- (2 ^ (LENGTH('a) - 1)) \<le> sint w"
    by (rule sint_ge)
  have "(2 :: int) ^ (LENGTH('a) - 1) \<le> 2 ^ LENGTH('a)"
    by (rule power_increasing) simp_all
  with lo a have "0 \<le> sint w + 2 ^ LENGTH('a)" "sint w + 2 ^ LENGTH('a) < 2 ^ LENGTH('a)"
    by linarith+
  then have "take_bit LENGTH('a) (sint w + 2 ^ LENGTH('a)) = sint w + 2 ^ LENGTH('a)"
    by (intro take_bit_int_eq_self)
  moreover have "take_bit LENGTH('a) (sint w + 2 ^ LENGTH('a)) = take_bit LENGTH('a) (sint w)"
    by (simp add: take_bit_eq_mod)
  ultimately show ?thesis
    using uint_sint [of w] by simp
qed

lemma uint_small_sint: "uint w < 2 ^ (LENGTH('a) - 1) \<Longrightarrow> sint w = uint w" for w :: "'a::len word"
proof -
  assume a: "uint w < 2 ^ (LENGTH('a) - 1)"
  have "sint w = signed_take_bit (LENGTH('a) - 1) (uint w)"
    by (simp only: sint_uint One_nat_def)
  also have "\<dots> = uint w"
  proof (rule signed_take_bit_int_eq_self)
    have "(0 :: int) \<le> 2 ^ (LENGTH('a) - 1)"
      by simp
    moreover have "0 \<le> uint w"
      by simp
    ultimately show "- (2 ^ (LENGTH('a) - 1)) \<le> uint w"
      by linarith
    show "uint w < 2 ^ (LENGTH('a) - 1)"
      by (rule a)
  qed
  finally show ?thesis .
qed

lemma sint_scast_widen: "sint (scast idx :: c_llong) = sint idx" for idx :: c_int
  by (rule sint_up_scast) (simp add: is_up)

lemma sint_add_in_range:
  fixes a b :: "'a::len word"
  assumes "- (2 ^ (LENGTH('a) - 1)) \<le> sint a + sint b" and "sint a + sint b < 2 ^ (LENGTH('a) - 1)"
  shows "sint (a + b) = sint a + sint b"
proof -
  have "sint (a + b) = signed_take_bit (LENGTH('a) - 1) (sint a + sint b)"
    by (rule sint_word_ariths)
  also from assms have "\<dots> = sint a + sint b"
    by (rule signed_take_bit_int_eq_self)
  finally show ?thesis .
qed

lemma sint_c_int_bounds: "- (2 ^ 31) \<le> sint idx \<and> sint idx < 2 ^ 31" for idx :: c_int
  using sint_ge [of idx] sint_lt [of idx] by simp

lemma clamp_index_le: "clamp_index n idx \<le> n"
  by (simp add: clamp_index_def Let_def not_less)

lemma uint_clamp_index:
  assumes small: "uint n < 2 ^ 63"
  shows "uint (clamp_index n idx) = normalized_index (uint n) (sint idx)"
proof -
  let ?w = "scast idx :: c_llong"
  have w: "sint ?w = sint idx"
    by (rule sint_scast_widen)
  have bounds: "- (2 ^ 31) \<le> sint idx" "sint idx < 2 ^ 31"
    using sint_c_int_bounds [of idx] by simp_all
  have n: "sint n = uint n"
    using small by (intro uint_small_sint) simp
  have nonneg: "0 \<le> uint n"
    by simp
  show ?thesis
  proof (cases "sint idx < 0")
    case True
    note neg = this
    have moved: "sint (n + ?w) = uint n + sint idx"
    proof -
      have "sint (n + ?w) = sint n + sint ?w"
      proof (rule sint_add_in_range)
        show "- (2 ^ (LENGTH(64) - 1)) \<le> sint n + sint ?w"
          using bounds by (simp add: n w, insert uint_ge_0 [of n], linarith)
        show "sint n + sint ?w < 2 ^ (LENGTH(64) - 1)"
          using small neg by (simp add: n w)
      qed
      then show ?thesis
        by (simp only: n w)
    qed
    show ?thesis
    proof (cases "uint n + sint idx < 0")
      case True
      with neg show ?thesis
        by (simp add: clamp_index_def Let_def w moved normalized_index_def)
    next
      case False
      then have "uint (n + ?w) = uint n + sint idx"
        using sint_nonneg_uint_gen [of "n + ?w"] by (simp add: moved)
      with neg False show ?thesis
        by (simp add: clamp_index_def Let_def w moved normalized_index_def word_less_def)
    qed
  next
    case False
    then have "uint ?w = sint idx"
      using sint_nonneg_uint_gen [of ?w] by (simp add: w)
    with False show ?thesis
      by (simp add: clamp_index_def Let_def w normalized_index_def word_less_def)
  qed
qed

lemma slice_scenario:
  "mu_string_slice \<lparr>buf = Ptr (Buffer 0) 0, len = 8\<rparr> (- 2) MU_STRING_END
     = \<lparr>buf = Ptr (Buffer 0) 6, len = 2\<rparr>"
  by (simp add: mu_string_is_valid_def mu_string_slice_def clamp_index_def MU_STRING_END_def
      INT_MAX_def)

lemma normalized_index_range: "0 \<le> L \<Longrightarrow> 0 \<le> normalized_index L idx \<and> normalized_index L idx \<le> L"
  by (simp add: normalized_index_def)

lemma slice_inside:
  assumes "mu_string_is_valid s"
  shows "len (mu_string_slice s start end) \<le> len s
    \<and> (mu_string_slice s start end = MU_STRING_EMPTY
       \<or> (\<exists>a. a \<le> len s \<and> len (mu_string_slice s start end) \<le> len s - a
              \<and> buf (mu_string_slice s start end) = ptr_add (buf s) a))"
proof (cases "len s = 0 \<or> clamp_index (len s) end \<le> clamp_index (len s) start")
  case True
  with assms have "mu_string_slice s start end = MU_STRING_EMPTY"
    by (auto simp: mu_string_slice_def Let_def)
  then show ?thesis
    by (simp add: MU_STRING_EMPTY_def)
next
  case False
  let ?a = "clamp_index (len s) start" and ?b = "clamp_index (len s) end"
  from False assms have res: "mu_string_slice s start end = \<lparr>buf = ptr_add (buf s) ?a, len = ?b - ?a\<rparr>"
    by (simp add: mu_string_slice_def Let_def)
  from False have lt: "?a < ?b"
    by (simp add: not_le)
  have b: "?b \<le> len s" and a: "?a \<le> len s"
    by (rule clamp_index_le)+
  from lt b have "unat (?b - ?a) = unat ?b - unat ?a" "unat (len s - ?a) = unat (len s) - unat ?a"
    using a by (simp_all add: unat_sub)
  with b have "?b - ?a \<le> len s - ?a" "?b - ?a \<le> len s"
    by (simp_all add: word_le_nat_alt)
  with a show ?thesis
    unfolding res by auto
qed


lemma slice_by_normalized_index:
  assumes valid: "mu_string_is_valid s" and small: "uint (len s) < 2 ^ 63"
  shows "mu_string_slice s start end =
     (if normalized_index (uint (len s)) (sint end) \<le> normalized_index (uint (len s)) (sint start)
      then MU_STRING_EMPTY
      else \<lparr>buf = ptr_add (buf s) (word_of_int (normalized_index (uint (len s)) (sint start))),
            len = word_of_int (normalized_index (uint (len s)) (sint end)
                               - normalized_index (uint (len s)) (sint start))\<rparr>)"
proof -
  let ?a = "clamp_index (len s) start" and ?b = "clamp_index (len s) end"
  have a: "uint ?a = normalized_index (uint (len s)) (sint start)"
    and b: "uint ?b = normalized_index (uint (len s)) (sint end)"
    using small by (rule uint_clamp_index)+
  have le: "?b \<le> ?a \<longleftrightarrow> normalized_index (uint (len s)) (sint end)
      \<le> normalized_index (uint (len s)) (sint start)"
    by (simp only: word_le_def a b)
  have wa: "word_of_int (normalized_index (uint (len s)) (sint start)) = ?a"
    by (simp only: a [symmetric] word_of_int_uint)
  have wb: "word_of_int (normalized_index (uint (len s)) (sint end)
      - normalized_index (uint (len s)) (sint start)) = ?b - ?a"
    by (simp only: a [symmetric] b [symmetric] of_int_diff word_of_int_uint)
  show ?thesis
  proof (cases "len s = 0")
    case True
    then have "normalized_index (uint (len s)) (sint end) = 0"
      "normalized_index (uint (len s)) (sint start) = 0"
      by (simp_all add: normalized_index_def)
    with True valid show ?thesis
      by (simp add: mu_string_slice_def)
  next
    case False
    with valid show ?thesis
      unfolding wa wb le [symmetric] by (simp add: mu_string_slice_def Let_def)
  qed
qed

text \<open>
  C3, as stated: \<open>MU_STRING_END\<close> clamps to the length \<open>L\<close> of the view, so that
  \<open>slice(s, 0, MU_STRING_END)\<close> is the whole of \<open>s\<close>. \<open>MU_STRING_END\<close> is \<open>INT_MAX\<close> and
  is treated as any other index: on a valid view of length \<open>2^31\<close>, one more than
  \<open>INT_MAX\<close>, the slice from 0 to \<open>MU_STRING_END\<close> has length \<open>INT_MAX\<close>.
\<close>

theorem slice_end_counterexample:
  "mu_string_is_valid \<lparr>buf = Ptr (Buffer 0) 0, len = 0x80000000\<rparr>
   \<and> mu_string_slice \<lparr>buf = Ptr (Buffer 0) 0, len = 0x80000000\<rparr> 0 MU_STRING_END
       = \<lparr>buf = Ptr (Buffer 0) 0, len = 0x7FFFFFFF\<rparr>
   \<and> (0x7FFFFFFF :: size_t) < 0x80000000"
  by (simp add: mu_string_is_valid_def mu_string_slice_def clamp_index_def MU_STRING_END_def
      INT_MAX_def)

text \<open>
  C3, amended. For a valid view \<open>s\<close> of length \<open>L < 2^63\<close> and all \<open>int\<close> indices,
  \<open>mu_string_slice\<close> normalizes both indices (a negative \<open>idx\<close> becomes \<open>L + idx\<close>, then
  the index is clamped into \<open>[0, L]\<close>), returns \<open>MU_STRING_EMPTY\<close> when the normalized
  start is not below the normalized end, and the subrange between them otherwise.
  \<open>MU_STRING_END\<close> normalizes to \<open>L\<close> when \<open>L \<le> INT_MAX\<close>, and to \<open>INT_MAX\<close> when \<open>L\<close>
  is larger. For a valid view of any length the result is no longer than \<open>s\<close> and is
  either \<open>MU_STRING_EMPTY\<close> or a range inside \<open>s\<close>. The slice of the 8-byte view
  \<open>"abcdefgh"\<close> from \<open>-2\<close> to \<open>MU_STRING_END\<close> is its last two bytes.
\<close>

theorem slice_normalized:
  "(mu_string_is_valid s \<and> uint (len s) < 2 ^ 63 \<longrightarrow>
      mu_string_slice s start end =
       (if normalized_index (uint (len s)) (sint end) \<le> normalized_index (uint (len s)) (sint start)
        then MU_STRING_EMPTY
        else \<lparr>buf = ptr_add (buf s) (word_of_int (normalized_index (uint (len s)) (sint start))),
              len = word_of_int (normalized_index (uint (len s)) (sint end)
                                 - normalized_index (uint (len s)) (sint start))\<rparr>))
   \<and> 0 \<le> normalized_index (uint (len s)) (sint start)
   \<and> normalized_index (uint (len s)) (sint start) \<le> uint (len s)
   \<and> (uint (len s) \<le> sint INT_MAX
        \<longrightarrow> normalized_index (uint (len s)) (sint MU_STRING_END) = uint (len s))
   \<and> (sint INT_MAX < uint (len s)
        \<longrightarrow> normalized_index (uint (len s)) (sint MU_STRING_END) = sint INT_MAX)
   \<and> (mu_string_is_valid s \<longrightarrow>
        len (mu_string_slice s start end) \<le> len s
        \<and> (mu_string_slice s start end = MU_STRING_EMPTY
           \<or> (\<exists>a. a \<le> len s \<and> len (mu_string_slice s start end) \<le> len s - a
                  \<and> buf (mu_string_slice s start end) = ptr_add (buf s) a)))
   \<and> mu_string_slice \<lparr>buf = Ptr (Buffer 0) 0, len = 8\<rparr> (- 2) MU_STRING_END
       = \<lparr>buf = Ptr (Buffer 0) 6, len = 2\<rparr>"
proof -
  have "sint INT_MAX = 2147483647"
    by (simp add: INT_MAX_def)
  then have "uint (len s) \<le> sint INT_MAX
        \<longrightarrow> normalized_index (uint (len s)) (sint MU_STRING_END) = uint (len s)"
    and "sint INT_MAX < uint (len s)
        \<longrightarrow> normalized_index (uint (len s)) (sint MU_STRING_END) = sint INT_MAX"
    by (simp_all add: normalized_index_def MU_STRING_END_def)
  moreover have "0 \<le> normalized_index (uint (len s)) (sint start)
      \<and> normalized_index (uint (len s)) (sint start) \<le> uint (len s)"
    by (rule normalized_index_range) simp
  ultimately show ?thesis
    using slice_by_normalized_index [of s start "end"] slice_inside [of s start "end"]
      slice_scenario
    by (intro conjI impI) (simp_all only:)
qed

theorem slice_normalized_witness:
  "mu_string_slice \<lparr>buf = Ptr (Buffer 0) 0, len = 8\<rparr> 3 5 = \<lparr>buf = Ptr (Buffer 0) 3, len = 2\<rparr>
   \<and> mu_string_slice \<lparr>buf = Ptr (Buffer 0) 0, len = 8\<rparr> (- 100) MU_STRING_END
       = \<lparr>buf = Ptr (Buffer 0) 0, len = 8\<rparr>
   \<and> mu_string_slice \<lparr>buf = Ptr (Buffer 0) 0, len = 8\<rparr> 5 3 = MU_STRING_EMPTY"
  using slice_normalized [of "\<lparr>buf = Ptr (Buffer 0) 0, len = 8\<rparr>" 3 5]
    slice_normalized [of "\<lparr>buf = Ptr (Buffer 0) 0, len = 8\<rparr>" "- 100" MU_STRING_END]
    slice_normalized [of "\<lparr>buf = Ptr (Buffer 0) 0, len = 8\<rparr>" 5 3]
  by (simp add: mu_string_is_valid_def normalized_index_def MU_STRING_END_def INT_MAX_def)

section \<open>Trimming twice\<close>

text \<open>
  On views of at most \<open>INT_MAX\<close> bytes \<open>mu_string_trim\<close> returns, and trimming its
  result again returns the same view.
\<close>

lemma uint_ucast_small:
  fixes x :: size_t
  assumes "uint x < 2 ^ 31"
  shows "uint (ucast x :: c_int) = uint x"
proof -
  have "uint (ucast x :: c_int) = take_bit LENGTH(32) (uint x)"
    by (rule unsigned_ucast_eq)
  also have "\<dots> = uint x"
    using assms by (intro take_bit_int_eq_self) simp_all
  finally show ?thesis .
qed

lemma sint_ucast_small:
  fixes x :: size_t
  assumes "uint x < 2 ^ 31"
  shows "sint (ucast x :: c_int) = uint x"
proof -
  from assms have "uint (ucast x :: c_int) < 2 ^ (LENGTH(32) - 1)"
    by (simp add: uint_ucast_small)
  then have "sint (ucast x :: c_int) = uint (ucast x :: c_int)"
    by (rule uint_small_sint)
  with assms show ?thesis
    by (simp add: uint_ucast_small)
qed

lemma scast_eq_of_sint:
  fixes e :: c_int and x :: size_t
  assumes "sint e = uint x"
  shows "(scast e :: size_t) = x"
proof -
  have "(scast e :: size_t) = word_of_int (sint e)"
    by (rule scast_eq)
  also have "\<dots> = x"
    by (simp only: assms word_of_int_uint)
  finally show ?thesis .
qed

lemma trim_end_loop_stops:
  assumes stop: "\<not> P (h (ptr_add b (scast lo)))" and lo: "0 \<le> sint lo"
  shows "sint lo \<le> sint e \<Longrightarrow>
    \<exists>e'. trim_end_loop P h b lo e = Some e' \<and> sint lo \<le> sint e' \<and> sint e' \<le> sint e
      \<and> \<not> P (h (ptr_add b (scast e')))"
proof (induction "nat (sint e - sint lo)" arbitrary: e)
  case 0
  then have "sint e = sint lo"
    by simp
  then have "e = lo"
    by (rule signed_word_eqI)
  with stop have "trim_end_loop P h b lo e = Some e"
    by (subst trim_end_loop.simps) simp
  with \<open>e = lo\<close> stop show ?case
    by simp
next
  case (Suc d)
  show ?case
  proof (cases "P (h (ptr_add b (scast e)))")
    case True
    from Suc.hyps(2) Suc.prems lo have "0 \<le> sint e"
      by linarith
    then have dec: "sint (e - 1) = sint e - 1"
      by (rule sint_dec)
    from True Suc.prems have "trim_end_loop P h b lo e = trim_end_loop P h b lo (e - 1)"
      by (subst trim_end_loop.simps) simp
    moreover have "\<exists>e'. trim_end_loop P h b lo (e - 1) = Some e' \<and> sint lo \<le> sint e'
        \<and> sint e' \<le> sint (e - 1) \<and> \<not> P (h (ptr_add b (scast e')))"
    proof (rule Suc.hyps(1))
      show "d = nat (sint (e - 1) - sint lo)"
        using Suc.hyps(2) dec by linarith
      show "sint lo \<le> sint (e - 1)"
        using Suc.hyps(2) dec by linarith
    qed
    ultimately show ?thesis
      using dec by auto
  next
    case False
    then have "trim_end_loop P h b lo e = Some e"
      by (subst trim_end_loop.simps) simp
    with False Suc.prems show ?thesis
      by simp
  qed
qed


lemma trim_fixed_point:
  assumes nonnull: "b \<noteq> Null" and stop_first: "\<not> p (h (ptr_add b 0)) arg"
    and small: "uint n + 1 < 2 ^ 31" and stop_last: "\<not> p (h (ptr_add b n)) arg"
  shows "mu_string_trim h \<lparr>buf = b, len = n + 1\<rparr> (Some p) arg = Some \<lparr>buf = b, len = n + 1\<rparr>"
proof -
  have n1: "uint (n + 1) = uint n + 1"
  proof -
    have "uint (n + 1) = take_bit LENGTH(64) (uint n + 1)"
      by (simp add: uint_word_ariths take_bit_eq_mod)
    also have "\<dots> = uint n + 1"
      using small by (intro take_bit_int_eq_self) simp_all
    finally show ?thesis .
  qed
  have ne: "n + 1 \<noteq> 0"
  proof
    assume "n + 1 = 0"
    then have "uint (n + 1) = 0"
      by simp
    with n1 uint_ge_0 [of n] show False
      by linarith
  qed
  then have pos: "0 < n + 1"
    by (simp add: word_neq_0_conv)
  from pos stop_first have start: "first_index (\<lambda>x. \<not> p x arg) h b (n + 1) 0 = 0"
    by (simp add: first_index_stop)
  have "sint (ucast (n + 1) :: c_int) = uint (n + 1)"
    using small by (intro sint_ucast_small) (simp add: n1)
  then have top: "sint (ucast (n + 1) :: c_int) = uint n + 1"
    by (simp only: n1)
  then have "0 \<le> sint (ucast (n + 1) :: c_int)"
    by simp
  then have "sint (ucast (n + 1) - 1 :: c_int) = sint (ucast (n + 1) :: c_int) - 1"
    by (rule sint_dec)
  with top have last: "sint (ucast (n + 1) - 1 :: c_int) = uint n"
    by simp
  then have offset: "(scast (ucast (n + 1) - 1 :: c_int) :: size_t) = n"
    by (rule scast_eq_of_sint)
  with stop_last have "trim_end_loop (\<lambda>x. p x arg) h b (ucast (0 :: size_t)) (ucast (n + 1) - 1)
      = Some (ucast (n + 1) - 1)"
    by (subst trim_end_loop.simps) simp
  with nonnull ne start offset show ?thesis
    by (simp add: mu_string_trim_def mu_string_is_valid_def ptr_add_0)
qed


lemma trim_result_in_int_range:
  assumes valid: "mu_string_is_valid v" and nonempty: "len v \<noteq> 0"
    and small: "uint (len v) < 2 ^ 31"
    and found: "first_index (\<lambda>x. \<not> p x arg) h (buf v) (len v) 0 \<noteq> len v"
  shows "\<exists>n. mu_string_trim h v (Some p) arg
        = Some \<lparr>buf = ptr_add (buf v) (first_index (\<lambda>x. \<not> p x arg) h (buf v) (len v) 0),
                len = n + 1\<rparr>
      \<and> uint n + 1 < 2 ^ 31
      \<and> \<not> p (h (ptr_add (buf v) (first_index (\<lambda>x. \<not> p x arg) h (buf v) (len v) 0 + n))) arg"
proof -
  define start where "start = first_index (\<lambda>x. \<not> p x arg) h (buf v) (len v) 0"
  have "start \<le> len v"
    unfolding start_def using first_index_bounds [of 0 "len v"] by simp
  with found have lt: "start < len v"
    by (simp add: start_def)
  then have stop: "\<not> p (h (ptr_add (buf v) start)) arg"
    unfolding start_def by (rule first_index_hit)
  from lt have ust: "uint start < uint (len v)"
    by (simp add: word_less_def)
  with small have lo: "sint (ucast start :: c_int) = uint start"
    by (intro sint_ucast_small) simp
  then have lo_back: "(scast (ucast start :: c_int) :: size_t) = start"
    by (rule scast_eq_of_sint)
  from small have "sint (ucast (len v) :: c_int) = uint (len v)"
    by (rule sint_ucast_small)
  moreover from this have "sint (ucast (len v) - 1 :: c_int) = sint (ucast (len v) :: c_int) - 1"
    by (intro sint_dec) simp
  ultimately have e0: "sint (ucast (len v) - 1 :: c_int) = uint (len v) - 1"
    by simp
  have "\<exists>e'. trim_end_loop (\<lambda>x. p x arg) h (buf v) (ucast start) (ucast (len v) - 1) = Some e'
      \<and> sint (ucast start :: c_int) \<le> sint e' \<and> sint e' \<le> sint (ucast (len v) - 1 :: c_int)
      \<and> \<not> p (h (ptr_add (buf v) (scast e'))) arg"
  proof (rule trim_end_loop_stops)
    show "\<not> p (h (ptr_add (buf v) (scast (ucast start :: c_int)))) arg"
      unfolding lo_back by (rule stop)
    show "0 \<le> sint (ucast start :: c_int)"
      by (simp add: lo)
    show "sint (ucast start :: c_int) \<le> sint (ucast (len v) - 1 :: c_int)"
      using ust by (simp add: lo e0)
  qed
  then obtain e' where loop: "trim_end_loop (\<lambda>x. p x arg) h (buf v) (ucast start) (ucast (len v) - 1) = Some e'"
    and lower: "uint start \<le> sint e'" and upper: "sint e' \<le> uint (len v) - 1"
    and last: "\<not> p (h (ptr_add (buf v) (scast e'))) arg"
    by (auto simp: lo e0)
  define n :: size_t where "n = word_of_int (sint e' - uint start)"
  have un: "uint n = sint e' - uint start"
  proof -
    have "uint n = take_bit LENGTH(64) (sint e' - uint start)"
      by (simp only: n_def uint_word_of_int_eq)
    also have "\<dots> = sint e' - uint start"
    proof (rule take_bit_int_eq_self)
      show "0 \<le> sint e' - uint start"
        using lower by simp
      have "sint e' - uint start < 2 ^ 31"
        using upper small uint_ge_0 [of start] by linarith
      also have "(2 :: int) ^ 31 \<le> 2 ^ LENGTH(64)"
        by simp
      finally show "sint e' - uint start < 2 ^ LENGTH(64)" .
    qed
    finally show ?thesis .
  qed
  have "n + start = word_of_int (sint e' - uint start + uint start)"
    by (simp only: n_def of_int_add word_of_int_uint)
  also have "\<dots> = word_of_int (sint e')"
    by (simp only: diff_add_cancel)
  also have "\<dots> = scast e'"
    by (rule scast_eq [symmetric])
  finally have "(scast e' :: size_t) = n + start"
    by (rule sym)
  then have e': "(scast e' :: size_t) = start + n"
    by (simp only: add.commute)
  from valid nonempty found loop have "mu_string_trim h v (Some p) arg
      = Some \<lparr>buf = ptr_add (buf v) start, len = scast e' - start + 1\<rparr>"
    by (simp add: mu_string_trim_def start_def Let_def)
  then have "mu_string_trim h v (Some p) arg = Some \<lparr>buf = ptr_add (buf v) start, len = n + 1\<rparr>"
    by (simp add: e')
  moreover from un upper small uint_ge_0 [of start] have "uint n + 1 < 2 ^ 31"
    by linarith
  moreover from last have "\<not> p (h (ptr_add (buf v) (start + n))) arg"
    unfolding e' .
  ultimately show ?thesis
    unfolding start_def by blast
qed

lemma trim_idempotent_in_int_range:
  assumes range: "mu_string_is_valid v \<longrightarrow> uint (len v) < 2 ^ 31"
  shows "\<exists>r. mu_string_trim h v pred arg = Some r \<and> mu_string_trim h r pred arg = Some r"
proof (cases "mu_string_is_valid v \<and> len v \<noteq> 0 \<and> pred \<noteq> None")
  case False
  show ?thesis
  proof (cases "mu_string_is_valid v")
    case True
    with False have "mu_string_trim h v pred arg = Some v"
      by (auto simp: mu_string_trim_def)
    then show ?thesis
      by simp
  next
    case False
    then have "mu_string_trim h v pred arg = Some MU_STRING_INVALID"
      by (simp add: mu_string_trim_def)
    moreover have "mu_string_trim h MU_STRING_INVALID pred arg = Some MU_STRING_INVALID"
      by (simp add: mu_string_trim_def mu_string_is_valid_def MU_STRING_INVALID_def SIZE_MAX_def)
    ultimately show ?thesis
      by simp
  qed
next
  case True
  then obtain p where p: "pred = Some p"
    by auto
  from True have valid: "mu_string_is_valid v" and nonempty: "len v \<noteq> 0"
    by simp_all
  with range have small: "uint (len v) < 2 ^ 31"
    by simp
  from valid nonempty have nonnull: "buf v \<noteq> Null"
    by (simp add: mu_string_is_valid_def)
  define start where "start = first_index (\<lambda>x. \<not> p x arg) h (buf v) (len v) 0"
  show ?thesis
  proof (cases "start = len v")
    case True
    with valid nonempty have "mu_string_trim h v pred arg = Some MU_STRING_EMPTY"
      by (simp add: mu_string_trim_def p start_def)
    moreover have "mu_string_trim h MU_STRING_EMPTY pred arg = Some MU_STRING_EMPTY"
      by (simp add: mu_string_trim_def mu_string_is_valid_def MU_STRING_EMPTY_def)
    ultimately show ?thesis
      by simp
  next
    case False
    then have "first_index (\<lambda>x. \<not> p x arg) h (buf v) (len v) 0 \<noteq> len v"
      by (simp add: start_def)
    from trim_result_in_int_range [where v = v and p = p and arg = arg and h = h,
        OF valid nonempty small this]
    obtain n where first: "mu_string_trim h v (Some p) arg = Some \<lparr>buf = ptr_add (buf v) start, len = n + 1\<rparr>"
      and n: "uint n + 1 < 2 ^ 31"
      and last: "\<not> p (h (ptr_add (buf v) (start + n))) arg"
      unfolding start_def by blast
    have "start \<le> len v"
      unfolding start_def using first_index_bounds [of 0 "len v"] by simp
    with False have "start < len v"
      by simp
    then have "\<not> p (h (ptr_add (buf v) start)) arg"
      unfolding start_def by (rule first_index_hit)
    then have "mu_string_trim h \<lparr>buf = ptr_add (buf v) start, len = n + 1\<rparr> (Some p) arg
        = Some \<lparr>buf = ptr_add (buf v) start, len = n + 1\<rparr>"
      using nonnull n last by (intro trim_fixed_point) (simp_all add: ptr_add_Null_iff ptr_add_add)
    with first show ?thesis
      by (simp add: p)
  qed
qed

text \<open>
  C9: \<open>mu_string_trim\<close> keeps its end index in an \<open>int\<close>, and beyond \<open>INT_MAX\<close> bytes
  trimming twice is not trimming once. On a view of \<open>2^31 + 1\<close> bytes that starts with
  two spaces, \<open>(int)s.len - 1\<close> is \<open>INT_MIN\<close>, the backward loop does not run, and the
  result has the length \<open>(size_t)INT_MIN - 2 + 1\<close>, more than the view had. Trimming the
  result again gives a view of \<open>2^31 - 1\<close> bytes: the second trim does not return what
  the first returned.
\<close>

theorem trim_long_view_not_idempotent:
  "mu_string_trim (poke (\<lambda>_. 0x61) (Ptr (Buffer 0) 0) [0x20, 0x20])
      \<lparr>buf = Ptr (Buffer 0) 0, len = 0x80000001\<rparr> (Some is_whitespace_pred) ()
     = Some \<lparr>buf = Ptr (Buffer 0) 2, len = 0xFFFFFFFF7FFFFFFF\<rparr>
   \<and> mu_string_trim (poke (\<lambda>_. 0x61) (Ptr (Buffer 0) 0) [0x20, 0x20])
      \<lparr>buf = Ptr (Buffer 0) 2, len = 0xFFFFFFFF7FFFFFFF\<rparr> (Some is_whitespace_pred) ()
     = Some \<lparr>buf = Ptr (Buffer 0) 2, len = 0x7FFFFFFF\<rparr>
   \<and> (0x7FFFFFFF :: size_t) \<noteq> 0xFFFFFFFF7FFFFFFF"
proof (intro conjI)
  show "mu_string_trim (poke (\<lambda>_. 0x61) (Ptr (Buffer 0) 0) [0x20, 0x20])
      \<lparr>buf = Ptr (Buffer 0) 0, len = 0x80000001\<rparr> (Some is_whitespace_pred) ()
     = Some \<lparr>buf = Ptr (Buffer 0) 2, len = 0xFFFFFFFF7FFFFFFF\<rparr>"
    by (simp add: mu_string_trim_def mu_string_is_valid_def first_index.simps
        is_whitespace_pred_def, subst trim_end_loop.simps, simp)
  show "mu_string_trim (poke (\<lambda>_. 0x61) (Ptr (Buffer 0) 0) [0x20, 0x20])
      \<lparr>buf = Ptr (Buffer 0) 2, len = 0xFFFFFFFF7FFFFFFF\<rparr> (Some is_whitespace_pred) ()
     = Some \<lparr>buf = Ptr (Buffer 0) 2, len = 0x7FFFFFFF\<rparr>"
    by (simp add: mu_string_trim_def mu_string_is_valid_def first_index.simps
        is_whitespace_pred_def, subst trim_end_loop.simps, simp)
qed simp

theorem trim_long_view_not_idempotent_witness:
  "mu_string_trim (poke (\<lambda>_. 0x61) (Ptr (Buffer 0) 0) [0x20, 0x20])
      \<lparr>buf = Ptr (Buffer 0) 0, len = 0x80000001\<rparr> (Some is_whitespace_pred) ()
     \<noteq> mu_string_trim (poke (\<lambda>_. 0x61) (Ptr (Buffer 0) 0) [0x20, 0x20])
      \<lparr>buf = Ptr (Buffer 0) 2, len = 0xFFFFFFFF7FFFFFFF\<rparr> (Some is_whitespace_pred) ()"
  using trim_long_view_not_idempotent
  by simp

end
